theory Spec2Isabelle
  imports Complex_Main
begin

section \<open>Data model\<close>

text \<open>
  JavaScript numbers are modelled as mathematical reals: arithmetic is exact, there is no
  rounding, overflow, infinity or NaN. The source computes in double precision. For the
  interpolated value and for the convex hull, whose branches test the sign of a rounded
  cross product, the rounding is made explicit in a second set of definitions (the section
  on rounded arithmetic and the two that follow it); the lemma on the area of the
  buffered hull is marked as a result of exact arithmetic. The coordinate conversion
  constants of \<open>AppConfig.coordConversion\<close> are configuration data; every function that
  reads them takes them as the parameter \<open>conv\<close>.
\<close>

record coordConversion =
  metersPerDegLat :: real
  metersPerDegLon :: real
  feetToMeters :: real

text \<open>A geographic position \<open>{lat, lon}\<close>; objects with more fields extend it.\<close>

record point =
  lat :: real
  lon :: real

text \<open>A sample point \<open>{lat, lon, value}\<close> as built by \<open>collectSamplePoints\<close>
  (the field \<open>value\<close> is written \<open>val\<close>).\<close>

record sample = point +
  val :: real

text \<open>An analyte threshold \<open>{low, high}\<close>.\<close>

record thresh =
  low :: real
  high :: real

text \<open>A colour \<open>{r, g, b}\<close>.\<close>

record rgb =
  r :: int
  g :: int
  b :: int

section \<open>Colour mapping (app.js, ContourModule)\<close>

definition C_GREEN :: rgb where
  "C_GREEN = \<lparr>r = 114, g = 175, b = 38\<rparr>"

definition C_YELLOW :: rgb where
  "C_YELLOW = \<lparr>r = 240, g = 208, b = 0\<rparr>"

definition C_ORANGE :: rgb where
  "C_ORANGE = \<lparr>r = 240, g = 147, b = 43\<rparr>"

definition C_RED :: rgb where
  "C_RED = \<lparr>r = 214, g = 62, b = 42\<rparr>"

text \<open>\<open>Math.round\<close>: the nearest integer, a tie going up.\<close>

definition Math_round :: "real \<Rightarrow> int" where
  "Math_round v = \<lfloor>v + 1 / 2\<rfloor>"

definition lerpColor :: "rgb \<Rightarrow> rgb \<Rightarrow> real \<Rightarrow> rgb" where
  "lerpColor c1 c2 t0 =
     (let t = max 0 (min 1 t0) in
      \<lparr>r = Math_round (real_of_int (r c1) + real_of_int (r c2 - r c1) * t),
       g = Math_round (real_of_int (g c1) + real_of_int (g c2 - g c1) * t),
       b = Math_round (real_of_int (b c1) + real_of_int (b c2 - b c1) * t)\<rparr>)"

definition valueToColor :: "real \<Rightarrow> thresh \<Rightarrow> rgb" where
  "valueToColor v th =
     (if v \<le> 0 then C_GREEN
      else if low th = high th then
        (if v < low th then lerpColor C_GREEN C_YELLOW (v / low th)
         else lerpColor C_YELLOW C_RED (min ((v - high th) / high th) 1))
      else if v < low th then lerpColor C_GREEN C_YELLOW (v / low th)
      else if v < high th then
        lerpColor C_YELLOW C_ORANGE ((v - low th) / (high th - low th))
      else lerpColor C_ORANGE C_RED (min ((v - high th) / (high th - low th)) 1))"

section \<open>Inverse-distance weighting (app.js, ContourModule)\<close>

text \<open>The squared planar distance in metres that the loop of \<open>computeIDW\<close> computes for
  one sample.\<close>

definition distSq :: "coordConversion \<Rightarrow> real \<Rightarrow> real \<Rightarrow> 'a point_scheme \<Rightarrow> real" where
  "distSq conv qlat qlon p =
     (let dLat = (qlat - lat p) * metersPerDegLat conv;
          dLon = (qlon - lon p) * metersPerDegLon conv
      in dLat * dLat + dLon * dLon)"

text \<open>The loop of \<open>computeIDW\<close> from index \<open>i\<close> on, with the running \<open>numerator\<close> and
  \<open>denominator\<close>; the \<open>return\<close> inside the loop ends it.\<close>

fun idwLoop :: "coordConversion \<Rightarrow> real \<Rightarrow> real \<Rightarrow> real \<Rightarrow> real \<Rightarrow> sample list \<Rightarrow> real" where
  "idwLoop conv qlat qlon numerator denominator [] =
     (if denominator > 0 then numerator / denominator else 0)"
| "idwLoop conv qlat qlon numerator denominator (p # ps) =
     (if distSq conv qlat qlon p < 1 then val p
      else let weight = 1 / distSq conv qlat qlon p
           in idwLoop conv qlat qlon (numerator + val p * weight) (denominator + weight) ps)"

definition computeIDW :: "coordConversion \<Rightarrow> real \<Rightarrow> real \<Rightarrow> sample list \<Rightarrow> real" where
  "computeIDW conv qlat qlon points = idwLoop conv qlat qlon 0 0 points"

section \<open>Sorting with a comparator\<close>

text \<open>
  \<open>Array.prototype.sort\<close> with a comparator function is modelled as a stable insertion
  sort: an element is placed before the first element that the comparator does not put
  in front of it, and the elements are inserted from the right, so that elements the
  comparator calls equal keep their order.
\<close>

fun insert_by :: "('a \<Rightarrow> 'a \<Rightarrow> real) \<Rightarrow> 'a \<Rightarrow> 'a list \<Rightarrow> 'a list" where
  "insert_by cmp v [] = [v]"
| "insert_by cmp v (y # ys) = (if cmp v y \<le> 0 then v # y # ys else y # insert_by cmp v ys)"

definition sort_by :: "('a \<Rightarrow> 'a \<Rightarrow> real) \<Rightarrow> 'a list \<Rightarrow> 'a list" where
  "sort_by cmp xs = foldr (insert_by cmp) xs []"

section \<open>Convex hull (app.js, ContourModule)\<close>

definition cross2D :: "'a point_scheme \<Rightarrow> 'b point_scheme \<Rightarrow> 'c point_scheme \<Rightarrow> real" where
  "cross2D O1 A B = (lon A - lon O1) * (lat B - lat O1) - (lat A - lat O1) * (lon B - lon O1)"

text \<open>The comparator of the sort in \<open>computeConvexHull\<close>: by longitude, then latitude.\<close>

definition cmpLonLat :: "'a point_scheme \<Rightarrow> 'a point_scheme \<Rightarrow> real" where
  "cmpLonLat a c = (if lon a \<noteq> lon c then lon a - lon c else lat a - lat c)"

text \<open>
  The chains \<open>lower\<close> and \<open>upper\<close> are JavaScript arrays used as stacks. Here a chain under
  construction is a list with the top of the stack at the head, so the array is the
  reverse of the list. \<open>popWhile\<close> is the inner \<open>while\<close> loop, \<open>chainStep\<close> one iteration of
  the \<open>for\<close> loop, \<open>buildChain\<close> the whole loop, giving the array.
\<close>

fun popWhile :: "'a point_scheme list \<Rightarrow> 'a point_scheme \<Rightarrow> 'a point_scheme list" where
  "popWhile (s1 # s2 # st) p =
     (if cross2D s2 s1 p \<le> 0 then popWhile (s2 # st) p else s1 # s2 # st)"
| "popWhile st p = st"

definition chainStep :: "'a point_scheme list \<Rightarrow> 'a point_scheme \<Rightarrow> 'a point_scheme list" where
  "chainStep st p = p # popWhile st p"

definition buildChain :: "'a point_scheme list \<Rightarrow> 'a point_scheme list" where
  "buildChain ps = rev (foldl chainStep [] ps)"

definition computeConvexHull :: "'a point_scheme list \<Rightarrow> 'a point_scheme list" where
  "computeConvexHull points =
     (if length points < 3 then points
      else let sorted = sort_by cmpLonLat points;
               lower = buildChain sorted;
               upper = buildChain (rev sorted)
           in butlast lower @ butlast upper)"

text \<open>The cross product that \<open>pointInConvexHull\<close> computes for the edge starting at
  index \<open>i\<close>.\<close>

definition edgeCross :: "real \<Rightarrow> real \<Rightarrow> 'a point_scheme list \<Rightarrow> nat \<Rightarrow> real" where
  "edgeCross qlat qlon hul i =
     (let j = (i + 1) mod (length hul)
      in (lon (hul ! j) - lon (hul ! i)) * (qlat - lat (hul ! i)) -
         (lat (hul ! j) - lat (hul ! i)) * (qlon - lon (hul ! i)))"

definition pointInConvexHull :: "real \<Rightarrow> real \<Rightarrow> 'a point_scheme list \<Rightarrow> bool" where
  "pointInConvexHull qlat qlon hul =
     (let n = length hul
      in if n < 3 then False
         else list_all (\<lambda>i. \<not> edgeCross qlat qlon hul i < 0) [0..<n])"

text \<open>
  \<open>bufferConvexHull\<close> returns its argument when it has fewer than 3 vertices and new
  \<open>{lat, lon}\<close> objects otherwise; the model returns plain points in both cases.
\<close>

definition bufferVertex :: "coordConversion \<Rightarrow> real \<Rightarrow> real \<Rightarrow> real \<Rightarrow> 'a point_scheme \<Rightarrow> point" where
  "bufferVertex conv bufferMeters centLat centLon h =
     (let bufLat = bufferMeters / metersPerDegLat conv;
          bufLon = bufferMeters / metersPerDegLon conv;
          dLat = lat h - centLat;
          dLon = lon h - centLon;
          dLatM = dLat * metersPerDegLat conv;
          dLonM = dLon * metersPerDegLon conv;
          dist = sqrt (dLatM * dLatM + dLonM * dLonM)
      in if dist < 0.001 then \<lparr>lat = lat h, lon = lon h\<rparr>
         else \<lparr>lat = lat h + (dLatM / dist) * bufLat,
               lon = lon h + (dLonM / dist) * bufLon\<rparr>)"

definition bufferConvexHull :: "coordConversion \<Rightarrow> 'a point_scheme list \<Rightarrow> real \<Rightarrow> point list" where
  "bufferConvexHull conv hul bufferMeters =
     (if length hul < 3 then map point.truncate hul
      else let centLat = sum_list (map lat hul) / real (length hul);
               centLon = sum_list (map lon hul) / real (length hul)
           in map (bufferVertex conv bufferMeters centLat centLon) hul)"

section \<open>Polygon area (PolygonModule)\<close>

text \<open>
  \<open>calculateAreaSqFt\<close> takes Leaflet \<open>LatLng\<close> objects \<open>{lat, lng}\<close>; they are modelled by
  points, \<open>lng\<close> being the field \<open>lon\<close>. \<open>toFeet\<close> is the function mapped over the
  vertices, giving \<open>(x, y)\<close> in feet relative to the first vertex.
\<close>

definition toFeet :: "coordConversion \<Rightarrow> 'a point_scheme \<Rightarrow> 'a point_scheme \<Rightarrow> real \<times> real" where
  "toFeet conv origin v =
     (let dLat = lat v - lat origin;
          dLon = lon v - lon origin;
          yFt = (dLat * metersPerDegLat conv) / feetToMeters conv;
          xFt = (dLon * metersPerDegLon conv) / feetToMeters conv
      in (xFt, yFt))"

definition shoelace :: "(real \<times> real) list \<Rightarrow> real" where
  "shoelace pts =
     (let n = length pts
      in sum_list (map (\<lambda>i. let j = (i + 1) mod n
                             in fst (pts ! i) * snd (pts ! j) - fst (pts ! j) * snd (pts ! i))
                       [0..<n]))"

definition calculateAreaSqFt :: "coordConversion \<Rightarrow> 'a point_scheme list \<Rightarrow> real" where
  "calculateAreaSqFt conv verts =
     (if length verts < 3 then 0
      else \<bar>shoelace (map (toFeet conv (hd verts)) verts) / 2\<bar>)"

section \<open>Counted loops over coordinates\<close>

text \<open>
  The loop \<open>for (var v = start; v < stop; v += step) { ... }\<close>, collecting what each
  iteration emits. With a step that is not positive the JavaScript loop never ends; the
  model then has no result (\<open>None\<close>).
\<close>

partial_function (option) forLoop ::
  "real \<Rightarrow> real \<Rightarrow> real \<Rightarrow> (real \<Rightarrow> 'a list option) \<Rightarrow> 'a list option" where
  "forLoop v stop step body =
     (if v < stop
      then Option.bind (body v) (\<lambda>out.
           Option.bind (forLoop (v + step) stop step body) (\<lambda>rest. Some (out @ rest)))
      else Some [])"

text \<open>
  \<open>Math.min.apply(null, xs)\<close> and \<open>Math.max.apply(null, xs)\<close> on a non-empty array. On
  the empty array JavaScript gives \<open>Infinity\<close> and \<open>-Infinity\<close>, which the reals do not
  have; both grids below branch on the empty case before they take a minimum.
\<close>

fun Math_min :: "real list \<Rightarrow> real" where
  "Math_min (v # vs) = fold min vs v"
| "Math_min [] = 0"

fun Math_max :: "real list \<Rightarrow> real" where
  "Math_max (v # vs) = fold max vs v"
| "Math_max [] = 0"

section \<open>Gap and hot-zone grids (AnalysisModule)\<close>

text \<open>
  A 2025 surface sample and a historical EA sample, as far as the analysis reads them.
  \<open>metals\<close> may be missing, and so may any value in it; \<open>null\<close> and \<open>undefined\<close> are
  \<open>None\<close>.
\<close>

record sample2025 = point +
  sampled :: bool
  metals :: "(string \<Rightarrow> real option) option"

record eaSample = point +
  mercury :: "real option"
  arsenic :: "real option"
  antimony :: "real option"
  thallium :: "real option"

text \<open>\<open>Utils.getSampleValue(sample, analyte, isEA)\<close>: the branch for \<open>isEA\<close> false and the
  branch for \<open>isEA\<close> true.\<close>

definition getSampleValue2025 :: "sample2025 \<Rightarrow> string \<Rightarrow> real option" where
  "getSampleValue2025 s analyte = (case metals s of None \<Rightarrow> None | Some m \<Rightarrow> m analyte)"

definition getSampleValueEA :: "eaSample \<Rightarrow> string \<Rightarrow> real option" where
  "getSampleValueEA e analyte =
     (if analyte = ''Mercury'' then mercury e
      else if analyte = ''Arsenic'' then arsenic e
      else if analyte = ''Antimony'' then antimony e
      else if analyte = ''Thallium'' then thallium e
      else None)"

text \<open>The part of \<open>AppState\<close> that the grids read.\<close>

record appState =
  samples2025 :: "sample2025 list"
  eaSamples :: "eaSample list"
  plannedPoints :: "point list"
  includePlannedInGaps :: bool
  gridSizeFt :: real
  currentAnalyte :: string

text \<open>A rectangle added to the layer: its two corners, colour and fill opacity.\<close>

record gridRect =
  latMin :: real
  lonMin :: real
  latMax :: real
  lonMax :: real
  color :: string
  fillOpacity :: real

text \<open>
  Leaflet's \<open>LatLng.distanceTo\<close> is library code; the grids take it as the parameter
  \<open>distanceTo\<close>, from the cell centre to a sample position, in metres.
\<close>

definition gapBaseSamples :: "appState \<Rightarrow> point list" where
  "gapBaseSamples st =
     map (\<lambda>s. \<lparr>lat = lat s, lon = lon s\<rparr>) (filter sampled (samples2025 st)) @
     map (\<lambda>e. \<lparr>lat = lat e, lon = lon e\<rparr>) (eaSamples st)"

definition gapDensitySamples :: "appState \<Rightarrow> point list" where
  "gapDensitySamples st =
     gapBaseSamples st @
     (if includePlannedInGaps st
      then map (\<lambda>p. \<lparr>lat = lat p, lon = lon p\<rparr>) (plannedPoints st) else [])"

text \<open>The body of the inner loop of \<open>createGapGrid\<close>: the rectangle of the cell whose
  south-west corner is \<open>(clat, clon)\<close>.\<close>

definition gapCell ::
  "(point \<Rightarrow> point \<Rightarrow> real) \<Rightarrow> point list \<Rightarrow> real \<Rightarrow> real \<Rightarrow> real \<Rightarrow> real \<Rightarrow> real \<Rightarrow> gridRect" where
  "gapCell distanceTo densitySamples gridSizeLat gridSizeLon searchRadius clat clon =
     (let centerLat = clat + gridSizeLat / 2;
          centerLon = clon + gridSizeLon / 2;
          centerLatLng = \<lparr>lat = centerLat, lon = centerLon\<rparr>;
          count = length (filter (\<lambda>s. distanceTo centerLatLng \<lparr>lat = lat s, lon = lon s\<rparr>
                                       \<le> searchRadius) densitySamples);
          (col, opacity) =
            (if count = 0 then (''#ff0000'', 0.35)
             else if count \<le> 2 then (''#ffff00'', 0.3)
             else (''#00ff00'', 0.2))
      in \<lparr>latMin = clat, lonMin = clon,
          latMax = clat + gridSizeLat, lonMax = clon + gridSizeLon,
          color = col, fillOpacity = opacity\<rparr>)"

text \<open>
  \<open>createGapGrid\<close>: the rectangles of the new layer, in the order they are added. With no
  base sample the bounds are \<open>Infinity\<close> and \<open>-Infinity\<close> and the loops do not run.
\<close>

definition createGapGrid ::
  "coordConversion \<Rightarrow> (point \<Rightarrow> point \<Rightarrow> real) \<Rightarrow> appState \<Rightarrow> gridRect list option" where
  "createGapGrid conv distanceTo st =
     (let baseSamples = gapBaseSamples st;
          densitySamples = gapDensitySamples st
      in if baseSamples = [] then Some []
         else
           let lats = map lat baseSamples;
               lons = map lon baseSamples;
               minLat = Math_min lats - 0.0005;
               maxLat = Math_max lats + 0.0005;
               minLon = Math_min lons - 0.0005;
               maxLon = Math_max lons + 0.0005;
               sizeMeters = gridSizeFt st * feetToMeters conv;
               gridSizeLat = sizeMeters / metersPerDegLat conv;
               gridSizeLon = sizeMeters / metersPerDegLon conv;
               searchRadius = sizeMeters
           in forLoop minLat maxLat gridSizeLat (\<lambda>clat.
                forLoop minLon maxLon gridSizeLon (\<lambda>clon.
                  Some [gapCell distanceTo densitySamples gridSizeLat gridSizeLon
                          searchRadius clat clon])))"

definition hotZoneSamples :: "appState \<Rightarrow> sample list" where
  "hotZoneSamples st =
     List.map_filter (\<lambda>s. case getSampleValue2025 s (currentAnalyte st) of
                            None \<Rightarrow> None
                          | Some v \<Rightarrow> Some \<lparr>lat = lat s, lon = lon s, val = v\<rparr>)
       (filter sampled (samples2025 st)) @
     List.map_filter (\<lambda>e. case getSampleValueEA e (currentAnalyte st) of
                            None \<Rightarrow> None
                          | Some v \<Rightarrow> Some \<lparr>lat = lat e, lon = lon e, val = v\<rparr>)
       (eaSamples st)"

text \<open>The loop over \<open>allSamples\<close> for one cell: the pair \<open>(maxVal, foundAny)\<close>, starting
  from \<open>(0, false)\<close>.\<close>

definition hotZoneScanStep ::
  "(point \<Rightarrow> point \<Rightarrow> real) \<Rightarrow> point \<Rightarrow> real \<Rightarrow> real \<times> bool \<Rightarrow> sample \<Rightarrow> real \<times> bool" where
  "hotZoneScanStep distanceTo centerLatLng searchRadius acc s =
     (if distanceTo centerLatLng \<lparr>lat = lat s, lon = lon s\<rparr> \<le> searchRadius
      then (if val s > fst acc then val s else fst acc, True)
      else acc)"

definition hotZoneScan ::
  "(point \<Rightarrow> point \<Rightarrow> real) \<Rightarrow> point \<Rightarrow> real \<Rightarrow> sample list \<Rightarrow> real \<times> bool" where
  "hotZoneScan distanceTo centerLatLng searchRadius allSamples =
     foldl (hotZoneScanStep distanceTo centerLatLng searchRadius) (0, False) allSamples"

definition hotZoneClass :: "thresh \<Rightarrow> real \<Rightarrow> string \<times> real" where
  "hotZoneClass th maxVal =
     (if maxVal > high th then (''#ff0000'', 0.5)
      else if maxVal > low th then (''#ff9900'', 0.4)
      else (''#00cc00'', 0.25))"

text \<open>The body of the inner loop of \<open>createHotZoneGrid\<close>: no rectangle (\<open>continue\<close>) or
  one.\<close>

definition hotZoneCell ::
  "(point \<Rightarrow> point \<Rightarrow> real) \<Rightarrow> thresh \<Rightarrow> sample list \<Rightarrow> real \<Rightarrow> real \<Rightarrow> real \<Rightarrow> real \<Rightarrow> real
     \<Rightarrow> gridRect list" where
  "hotZoneCell distanceTo th allSamples gridSizeLat gridSizeLon searchRadius clat clon =
     (let centerLat = clat + gridSizeLat / 2;
          centerLon = clon + gridSizeLon / 2;
          centerLatLng = \<lparr>lat = centerLat, lon = centerLon\<rparr>;
          (maxVal, foundAny) = hotZoneScan distanceTo centerLatLng searchRadius allSamples
      in if \<not> foundAny then []
         else let (col, opacity) = hotZoneClass th maxVal
              in [\<lparr>latMin = clat, lonMin = clon,
                    latMax = clat + gridSizeLat, lonMax = clon + gridSizeLon,
                    color = col, fillOpacity = opacity\<rparr>])"

text \<open>\<open>createHotZoneGrid\<close>; \<open>th\<close> is \<open>AppConfig.thresholds[analyte]\<close>.\<close>

definition createHotZoneGrid ::
  "coordConversion \<Rightarrow> (point \<Rightarrow> point \<Rightarrow> real) \<Rightarrow> thresh \<Rightarrow> appState \<Rightarrow> gridRect list option" where
  "createHotZoneGrid conv distanceTo th st =
     (let allSamples = hotZoneSamples st
      in if length allSamples = 0 then Some []
         else
           let lats = map lat allSamples;
               lons = map lon allSamples;
               minLat = Math_min lats - 0.0005;
               maxLat = Math_max lats + 0.0005;
               minLon = Math_min lons - 0.0005;
               maxLon = Math_max lons + 0.0005;
               sizeMeters = gridSizeFt st * feetToMeters conv;
               gridSizeLat = sizeMeters / metersPerDegLat conv;
               gridSizeLon = sizeMeters / metersPerDegLon conv;
               searchRadius = sizeMeters
           in forLoop minLat maxLat gridSizeLat (\<lambda>clat.
                forLoop minLon maxLon gridSizeLon (\<lambda>clon.
                  Some (hotZoneCell distanceTo th allSamples gridSizeLat gridSizeLon
                          searchRadius clat clon))))"

section \<open>Transect clicks (CrossSectionModule)\<close>

text \<open>
  The module state that \<open>handleTransectClick\<close> reads and writes. A marker is modelled by
  its position, the transect line by its two end points, the status bar by the message
  it shows (\<open>None\<close> when hidden), the panel by whether it is displayed. \<open>measureMode\<close> is
  \<open>AppState.measureMode\<close>.
\<close>

datatype statusMsg = ClickSecondPoint | TransectTooShort | NoSamplesInCorridor

record 'i csState =
  active :: bool
  measureMode :: bool
  transectPoints :: "point list"
  transectMarkers :: "point list"
  transectLine :: "(point \<times> point) option"
  corridorPolygon :: "point list option"
  panelDisplayed :: bool
  status :: "statusMsg option"
  lastSamples :: "'i list option"

definition showStatus :: "statusMsg \<Rightarrow> 'i csState \<Rightarrow> 'i csState" where
  "showStatus msg st = st\<lparr>status := Some msg\<rparr>"

definition hideStatus :: "'i csState \<Rightarrow> 'i csState" where
  "hideStatus st = st\<lparr>status := None\<rparr>"

definition hidePanel :: "'i csState \<Rightarrow> 'i csState" where
  "hidePanel st = st\<lparr>panelDisplayed := False\<rparr>"

definition clearTransect :: "'i csState \<Rightarrow> 'i csState" where
  "clearTransect st =
     st\<lparr>transectMarkers := [], transectPoints := [],
        transectLine := None, corridorPolygon := None\<rparr>"

text \<open>
  \<open>drawTransectOnMap\<close>; the four corners of the corridor come from \<open>computeBearing\<close> and
  \<open>offsetLatLng\<close>, taken here as the parameter \<open>corridor\<close>.
\<close>

definition drawTransectOnMap ::
  "(point \<Rightarrow> point \<Rightarrow> point list) \<Rightarrow> 'i csState \<Rightarrow> 'i csState" where
  "drawTransectOnMap corridor st =
     (if length (transectPoints st) < 2 then st
      else let a = transectPoints st ! 0;
               c = transectPoints st ! 1
           in st\<lparr>transectLine := Some (a, c), corridorPolygon := Some (corridor a c)\<rparr>)"

definition renderPanel :: "'i list \<Rightarrow> 'i csState \<Rightarrow> 'i csState" where
  "renderPanel samples st = st\<lparr>panelDisplayed := True\<rparr>"

text \<open>
  \<open>handleTransectClick\<close> for a click at \<open>latlng\<close>. \<open>distanceTo\<close> is Leaflet's
  \<open>LatLng.distanceTo\<close>; \<open>collectSamples\<close> gives the intervals in the corridor of the
  transect between two points.
\<close>

definition handleTransectClick ::
  "(point \<Rightarrow> point \<Rightarrow> real) \<Rightarrow> (point \<Rightarrow> point \<Rightarrow> 'i list) \<Rightarrow> (point \<Rightarrow> point \<Rightarrow> point list)
     \<Rightarrow> 'i csState \<Rightarrow> point \<Rightarrow> 'i csState" where
  "handleTransectClick distanceTo collectSamples corridor st latlng =
     (if \<not> active st then st
      else if measureMode st then st
      else
        let st1 = (if length (transectPoints st) \<ge> 2
                   then (hidePanel (clearTransect st))\<lparr>lastSamples := None\<rparr>
                   else st);
            st2 = st1\<lparr>transectMarkers := transectMarkers st1 @ [latlng],
                      transectPoints := transectPoints st1 @ [latlng]\<rparr>
        in if length (transectPoints st2) = 1 then showStatus ClickSecondPoint st2
           else if length (transectPoints st2) = 2 then
             (let lengthM = distanceTo (transectPoints st2 ! 0) (transectPoints st2 ! 1)
              in if lengthM < 3
                 then (showStatus TransectTooShort st2)
                        \<lparr>transectMarkers := butlast (transectMarkers st2),
                         transectPoints := butlast (transectPoints st2)\<rparr>
                 else
                   let st3 = drawTransectOnMap corridor (hideStatus st2);
                       samples = collectSamples (transectPoints st3 ! 0) (transectPoints st3 ! 1)
                   in if length samples > 0
                      then renderPanel samples (st3\<lparr>lastSamples := Some samples\<rparr>)
                      else showStatus NoSamplesInCorridor st3)
           else st2)"

section \<open>Column layout (CrossSectionModule)\<close>

text \<open>A column position \<open>{id, x}\<close>; the fields are written \<open>pos_id\<close> and \<open>pos_x\<close>.\<close>

record position =
  pos_id :: string
  pos_x :: real

definition COLUMN_WIDTH_PX :: real where
  "COLUMN_WIDTH_PX = 24"

definition cmpX :: "position \<Rightarrow> position \<Rightarrow> real" where
  "cmpX a c = pos_x a - pos_x c"

text \<open>
  One pass of the inner loop over \<open>i = 1 .. length - 1\<close>, on the list from index
  \<open>i - 1\<close> on: the positions after the pass, and whether \<open>changed\<close> was set.
\<close>

fun relaxPass :: "real \<Rightarrow> position list \<Rightarrow> position list \<times> bool" where
  "relaxPass minGap (p # q # rest) =
     (let gap = pos_x q - pos_x p
      in if gap < minGap
         then let shift = (minGap - gap) / 2;
                  p' = p\<lparr>pos_x := pos_x p - shift\<rparr>;
                  q' = q\<lparr>pos_x := pos_x q + shift\<rparr>;
                  (rest', changed) = relaxPass minGap (q' # rest)
              in (p' # rest', True)
         else let (rest', changed) = relaxPass minGap (q # rest)
              in (p # rest', changed))"
| "relaxPass minGap ps = (ps, False)"

text \<open>The outer loop \<open>for (pass = 0; pass < 5; pass++)\<close> with its \<open>break\<close>.\<close>

function relaxLoop :: "nat \<Rightarrow> real \<Rightarrow> position list \<Rightarrow> position list" where
  "relaxLoop pass minGap positions =
     (if pass < 5
      then let (positions', changed) = relaxPass minGap positions
           in if \<not> changed then positions' else relaxLoop (pass + 1) minGap positions'
      else positions)"
  by pat_completeness auto
termination
  by (relation "measure (\<lambda>(pass, minGap, positions). 5 - pass)") auto

declare relaxLoop.simps [simp del]

definition clampToPlot :: "real \<Rightarrow> real \<Rightarrow> position \<Rightarrow> position" where
  "clampToPlot plotLeft plotRight p =
     (let halfCol = COLUMN_WIDTH_PX / 2;
          p1 = (if pos_x p - halfCol < plotLeft then p\<lparr>pos_x := plotLeft + halfCol\<rparr> else p);
          p2 = (if pos_x p1 + halfCol > plotRight then p1\<lparr>pos_x := plotRight - halfCol\<rparr> else p1)
      in p2)"

definition resolveOverlaps :: "position list \<Rightarrow> real \<Rightarrow> real \<Rightarrow> real \<Rightarrow> position list" where
  "resolveOverlaps positions minGap plotLeft plotRight =
     (if length positions \<le> 1 then positions
      else map (clampToPlot plotLeft plotRight)
             (relaxLoop 0 minGap (sort_by cmpX positions)))"

section \<open>Properties named in the specification\<close>

text \<open>Adjacent columns are separated by at least the minimum gap.\<close>

fun spaced :: "real \<Rightarrow> position list \<Rightarrow> bool" where
  "spaced minGap (p # q # rest) = (minGap \<le> pos_x q - pos_x p \<and> spaced minGap (q # rest))"
| "spaced minGap ps = True"

text \<open>A column of width \<open>COLUMN_WIDTH_PX\<close> centred at the position lies within the plot
  bounds.\<close>

definition withinPlot :: "real \<Rightarrow> real \<Rightarrow> position \<Rightarrow> bool" where
  "withinPlot plotLeft plotRight p =
     (plotLeft \<le> pos_x p - COLUMN_WIDTH_PX / 2 \<and> pos_x p + COLUMN_WIDTH_PX / 2 \<le> plotRight)"

text \<open>The samples of the list that lie within the search radius of a cell centre.\<close>

definition withinRadius ::
  "(point \<Rightarrow> point \<Rightarrow> real) \<Rightarrow> point \<Rightarrow> real \<Rightarrow> sample list \<Rightarrow> sample list" where
  "withinRadius distanceTo centerLatLng searchRadius allSamples =
     filter (\<lambda>s. distanceTo centerLatLng \<lparr>lat = lat s, lon = lon s\<rparr> \<le> searchRadius) allSamples"

text \<open>Two rectangles overlap in area: their intersection has a positive area.\<close>

definition overlapArea :: "gridRect \<Rightarrow> gridRect \<Rightarrow> bool" where
  "overlapArea c d =
     (max (latMin c) (latMin d) < min (latMax c) (latMax d) \<and>
      max (lonMin c) (lonMin d) < min (lonMax c) (lonMax d))"

text \<open>The padded bounding box of the samples (their extent with 0.0005 degrees added on
  every side), and the closed rectangle of a cell.\<close>

definition inPaddedBox :: "point list \<Rightarrow> real \<Rightarrow> real \<Rightarrow> bool" where
  "inPaddedBox samples y x =
     (Math_min (map lat samples) - 0.0005 \<le> y \<and> y \<le> Math_max (map lat samples) + 0.0005 \<and>
      Math_min (map lon samples) - 0.0005 \<le> x \<and> x \<le> Math_max (map lon samples) + 0.0005)"

definition inCell :: "gridRect \<Rightarrow> real \<Rightarrow> real \<Rightarrow> bool" where
  "inCell c y x = (latMin c \<le> y \<and> y \<le> latMax c \<and> lonMin c \<le> x \<and> x \<le> lonMax c)"

text \<open>
  The hot-zone cell as the specification describes it: no rectangle when no sample lies
  within the search radius of the cell centre; otherwise the aggregate is the maximum value
  among the samples within the radius, and the rectangle is red when the maximum is above
  the high threshold, orange when above the low threshold, green otherwise.
\<close>

definition hotZoneCellSpec ::
  "(point \<Rightarrow> point \<Rightarrow> real) \<Rightarrow> thresh \<Rightarrow> sample list \<Rightarrow> real \<Rightarrow> real \<Rightarrow> real \<Rightarrow> real \<Rightarrow> real
     \<Rightarrow> gridRect list" where
  "hotZoneCellSpec distanceTo th samples gridSizeLat gridSizeLon searchRadius clat clon =
     (let inRange = withinRadius distanceTo
                      \<lparr>lat = clat + gridSizeLat / 2, lon = clon + gridSizeLon / 2\<rparr>
                      searchRadius samples
      in if inRange = [] then []
         else let m = Max (val ` set inRange)
              in [\<lparr>latMin = clat, lonMin = clon,
                    latMax = clat + gridSizeLat, lonMax = clon + gridSizeLon,
                    color = (if m > high th then ''#ff0000''
                             else if m > low th then ''#ff9900'' else ''#00cc00''),
                    fillOpacity = (if m > high th then 0.5
                                   else if m > low th then 0.4 else 0.25)\<rparr>])"

text \<open>
  The hot-zone grid of the specification: the cells of the specification over the grid
  that \<open>createHotZoneGrid\<close> walks (the padded bounding box of the collected samples, in
  steps of the grid size, the search radius being the grid size in metres).
\<close>

definition hotZoneGridSpec ::
  "coordConversion \<Rightarrow> (point \<Rightarrow> point \<Rightarrow> real) \<Rightarrow> thresh \<Rightarrow> appState \<Rightarrow> gridRect list option" where
  "hotZoneGridSpec conv distanceTo th st =
     (let samples = hotZoneSamples st
      in if samples = [] then Some []
         else forLoop (Math_min (map lat samples) - 0.0005) (Math_max (map lat samples) + 0.0005)
                (gridSizeFt st * feetToMeters conv / metersPerDegLat conv) (\<lambda>clat.
              forLoop (Math_min (map lon samples) - 0.0005) (Math_max (map lon samples) + 0.0005)
                (gridSizeFt st * feetToMeters conv / metersPerDegLon conv) (\<lambda>clon.
                Some (hotZoneCellSpec distanceTo th samples
                        (gridSizeFt st * feetToMeters conv / metersPerDegLat conv)
                        (gridSizeFt st * feetToMeters conv / metersPerDegLon conv)
                        (gridSizeFt st * feetToMeters conv) clat clon))))"

section \<open>Notions for the convex hull proof\<close>

text \<open>A vector pointing to the right, or straight up: the difference of two points in
  increasing sort order.\<close>

definition inH :: "real \<Rightarrow> real \<Rightarrow> bool" where
  "inH x y = (0 < x \<or> (x = 0 \<and> 0 < y))"

text \<open>The same, the zero vector included.\<close>

definition inH0 :: "real \<Rightarrow> real \<Rightarrow> bool" where
  "inH0 x y = (0 < x \<or> (x = 0 \<and> 0 \<le> y))"

text \<open>The order of the sort in \<open>computeConvexHull\<close>: by longitude, then by latitude; strict,
  and not strict.\<close>

definition lexlt :: "'a point_scheme \<Rightarrow> 'a point_scheme \<Rightarrow> bool" where
  "lexlt a c = (lon a < lon c \<or> (lon a = lon c \<and> lat a < lat c))"

definition lexle :: "'a point_scheme \<Rightarrow> 'a point_scheme \<Rightarrow> bool" where
  "lexle a c = (lon a < lon c \<or> (lon a = lon c \<and> lat a \<le> lat c))"

text \<open>Two points have the same coordinates.\<close>

definition samePos :: "'a point_scheme \<Rightarrow> 'a point_scheme \<Rightarrow> bool" where
  "samePos a c = (lon a = lon c \<and> lat a = lat c)"

text \<open>
  A chain under construction (top of the stack first) is in strictly increasing sort order
  from bottom to top and makes a strict left turn at every inner vertex.
\<close>

fun chainOK :: "'a point_scheme list \<Rightarrow> bool" where
  "chainOK (d # c # rest) =
     (lexlt c d \<and> (case rest of [] \<Rightarrow> True | a # _ \<Rightarrow> 0 < cross2D a c d) \<and> chainOK (c # rest))"
| "chainOK st = True"

text \<open>Every point of \<open>Q\<close> lies to the left of, or on, every edge of the chain.\<close>

fun edgesLeft :: "'a point_scheme set \<Rightarrow> 'a point_scheme list \<Rightarrow> bool" where
  "edgesLeft Q (c # a # rest) = ((\<forall>q \<in> Q. 0 \<le> cross2D a c q) \<and> edgesLeft Q (a # rest))"
| "edgesLeft Q st = True"

text \<open>
  The invariant of the loop that builds a chain, \<open>Q\<close> being the points processed so far:
  the top of the stack is the last point and the bottom the first in sort order, all
  processed points are left of or on every edge, and the chain is strictly convex unless
  all processed points coincide.
\<close>

definition chainInv :: "'a point_scheme list \<Rightarrow> 'a point_scheme set \<Rightarrow> bool" where
  "chainInv st Q =
     (st \<noteq> [] \<and> set st \<subseteq> Q \<and> (\<forall>q \<in> Q. lexle q (hd st)) \<and> (\<forall>q \<in> Q. lexle (last st) q) \<and>
      edgesLeft Q st \<and>
      (chainOK st \<or> ((\<forall>q \<in> Q. samePos q (hd st)) \<and> length st \<le> 2)))"

text \<open>The point reflected at the origin; it turns the sort order around and keeps every
  cross product.\<close>

definition negPt :: "'a point_scheme \<Rightarrow> 'a point_scheme" where
  "negPt p = p\<lparr>lat := - lat p, lon := - lon p\<rparr>"

section \<open>Rounded arithmetic\<close>

text \<open>
  The source computes in double precision: every arithmetic operation returns the double
  nearest to its exact result. In the definitions of this and the next two sections the
  rounding is written out: \<open>fl\<close> is applied to the exact result of every arithmetic
  operation, in the order in which the source expression is evaluated. With \<open>fl\<close> the
  identity they are the definitions of exact arithmetic above.
\<close>

text \<open>Rounding to the nearest integer, a tie going to the even one.\<close>

definition rne :: "real \<Rightarrow> int" where
  "rne y = (let f = \<lfloor>y\<rfloor>; d = y - of_int f
            in if d < 1 / 2 then f else if 1 / 2 < d then f + 1
               else if even f then f else f + 1)"

text \<open>
  Rounding to the nearest number with a significand of 53 bits, a tie going to the even
  significand: the rounding of IEEE 754 binary64 arithmetic for results in its normal
  range (of magnitude from 2 to the power -1022 up to about 1.8e308). The exponent is not
  bounded here: overflow to infinity and the coarser rounding of subnormal results are not
  modelled.
\<close>

definition roundDouble :: "real \<Rightarrow> real" where
  "roundDouble x =
     (if x = 0 then 0
      else let e = \<lfloor>log 2 \<bar>x\<bar>\<rfloor>
           in of_int (rne (x * 2 powr (52 - of_int e))) * 2 powr (of_int e - 52))"

section \<open>Inverse-distance weighting in rounded arithmetic\<close>

text \<open>\<open>computeIDW\<close> with the rounding of every operation written out.\<close>

definition distSq_fl ::
  "(real \<Rightarrow> real) \<Rightarrow> coordConversion \<Rightarrow> real \<Rightarrow> real \<Rightarrow> 'a point_scheme \<Rightarrow> real" where
  "distSq_fl fl conv qlat qlon p =
     (let dLat = fl (fl (qlat - lat p) * metersPerDegLat conv);
          dLon = fl (fl (qlon - lon p) * metersPerDegLon conv)
      in fl (fl (dLat * dLat) + fl (dLon * dLon)))"

fun idwLoop_fl ::
  "(real \<Rightarrow> real) \<Rightarrow> coordConversion \<Rightarrow> real \<Rightarrow> real \<Rightarrow> real \<Rightarrow> real \<Rightarrow> sample list \<Rightarrow> real" where
  "idwLoop_fl fl conv qlat qlon numerator denominator [] =
     (if denominator > 0 then fl (numerator / denominator) else 0)"
| "idwLoop_fl fl conv qlat qlon numerator denominator (p # ps) =
     (if distSq_fl fl conv qlat qlon p < 1 then val p
      else let weight = fl (1 / distSq_fl fl conv qlat qlon p)
           in idwLoop_fl fl conv qlat qlon (fl (numerator + fl (val p * weight)))
                (fl (denominator + weight)) ps)"

definition computeIDW_fl ::
  "(real \<Rightarrow> real) \<Rightarrow> coordConversion \<Rightarrow> real \<Rightarrow> real \<Rightarrow> sample list \<Rightarrow> real" where
  "computeIDW_fl fl conv qlat qlon points = idwLoop_fl fl conv qlat qlon 0 0 points"

text \<open>
  The exact results that a run of the loop rounds once the squared distance is known: for
  every sample the weight, the product of value and weight and the two running sums, and
  at the end the quotient. The squared distances are left out: nothing below depends on
  how they are rounded.
\<close>

fun idwRounded ::
  "(real \<Rightarrow> real) \<Rightarrow> coordConversion \<Rightarrow> real \<Rightarrow> real \<Rightarrow> real \<Rightarrow> real \<Rightarrow> sample list \<Rightarrow> real list" where
  "idwRounded fl conv qlat qlon numerator denominator [] =
     (if denominator > 0 then [numerator / denominator] else [])"
| "idwRounded fl conv qlat qlon numerator denominator (p # ps) =
     (if distSq_fl fl conv qlat qlon p < 1 then []
      else let weight = fl (1 / distSq_fl fl conv qlat qlon p)
           in [1 / distSq_fl fl conv qlat qlon p, val p * weight,
               numerator + fl (val p * weight), denominator + weight]
              @ idwRounded fl conv qlat qlon (fl (numerator + fl (val p * weight)))
                  (fl (denominator + weight)) ps)"

section \<open>The convex hull in rounded arithmetic\<close>

text \<open>
  The hull construction and the containment test branch on the sign of a cross product
  that the source computes in double precision. The definitions below are the source
  functions \<open>cross2D\<close>, \<open>computeConvexHull\<close> and \<open>pointInConvexHull\<close> with the rounding
  \<open>fl\<close> applied to the result of every subtraction and multiplication; the comparisons
  read the rounded value.
\<close>

definition cross2D_fl ::
  "(real \<Rightarrow> real) \<Rightarrow> 'a point_scheme \<Rightarrow> 'b point_scheme \<Rightarrow> 'c point_scheme \<Rightarrow> real" where
  "cross2D_fl fl O1 A B =
     fl (fl (fl (lon A - lon O1) * fl (lat B - lat O1)) -
         fl (fl (lat A - lat O1) * fl (lon B - lon O1)))"

definition cmpLonLat_fl :: "(real \<Rightarrow> real) \<Rightarrow> 'a point_scheme \<Rightarrow> 'a point_scheme \<Rightarrow> real" where
  "cmpLonLat_fl fl a c = (if lon a \<noteq> lon c then fl (lon a - lon c) else fl (lat a - lat c))"

fun popWhile_fl ::
  "(real \<Rightarrow> real) \<Rightarrow> 'a point_scheme list \<Rightarrow> 'a point_scheme \<Rightarrow> 'a point_scheme list" where
  "popWhile_fl fl (s1 # s2 # st) p =
     (if cross2D_fl fl s2 s1 p \<le> 0 then popWhile_fl fl (s2 # st) p else s1 # s2 # st)"
| "popWhile_fl fl st p = st"

definition chainStep_fl ::
  "(real \<Rightarrow> real) \<Rightarrow> 'a point_scheme list \<Rightarrow> 'a point_scheme \<Rightarrow> 'a point_scheme list" where
  "chainStep_fl fl st p = p # popWhile_fl fl st p"

definition buildChain_fl :: "(real \<Rightarrow> real) \<Rightarrow> 'a point_scheme list \<Rightarrow> 'a point_scheme list" where
  "buildChain_fl fl ps = rev (foldl (chainStep_fl fl) [] ps)"

definition computeConvexHull_fl ::
  "(real \<Rightarrow> real) \<Rightarrow> 'a point_scheme list \<Rightarrow> 'a point_scheme list" where
  "computeConvexHull_fl fl points =
     (if length points < 3 then points
      else let sorted = sort_by (cmpLonLat_fl fl) points;
               lower = buildChain_fl fl sorted;
               upper = buildChain_fl fl (rev sorted)
           in butlast lower @ butlast upper)"

definition edgeCross_fl ::
  "(real \<Rightarrow> real) \<Rightarrow> real \<Rightarrow> real \<Rightarrow> 'a point_scheme list \<Rightarrow> nat \<Rightarrow> real" where
  "edgeCross_fl fl qlat qlon hul i =
     (let j = (i + 1) mod (length hul)
      in fl (fl (fl (lon (hul ! j) - lon (hul ! i)) * fl (qlat - lat (hul ! i))) -
             fl (fl (lat (hul ! j) - lat (hul ! i)) * fl (qlon - lon (hul ! i)))))"

definition pointInConvexHull_fl ::
  "(real \<Rightarrow> real) \<Rightarrow> real \<Rightarrow> real \<Rightarrow> 'a point_scheme list \<Rightarrow> bool" where
  "pointInConvexHull_fl fl qlat qlon hul =
     (let n = length hul
      in if n < 3 then False
         else list_all (\<lambda>i. \<not> edgeCross_fl fl qlat qlon hul i < 0) [0..<n])"

text \<open>
  Rounding does not change a sign among the points of the list: for every three of them
  the rounded cross product is negative, or zero, exactly when the exact one is, and for
  every two of them the rounded difference of their longitudes, and of their latitudes,
  is at most 0 exactly when the exact difference is. (The second part holds for every
  pair of doubles: the rounded difference of two doubles is 0 only when they are equal.
  The first part fails for points that are nearly, but not exactly, on one line.)
\<close>

definition signsExact :: "(real \<Rightarrow> real) \<Rightarrow> 'a point_scheme list \<Rightarrow> bool" where
  "signsExact fl points =
     ((\<forall>u \<in> set points. \<forall>v \<in> set points. \<forall>w \<in> set points.
         (cross2D_fl fl u v w \<le> 0 \<longleftrightarrow> cross2D u v w \<le> 0) \<and>
         (cross2D_fl fl u v w < 0 \<longleftrightarrow> cross2D u v w < 0)) \<and>
      (\<forall>u \<in> set points. \<forall>v \<in> set points.
         (fl (lon u - lon v) \<le> 0 \<longleftrightarrow> lon u \<le> lon v) \<and>
         (fl (lat u - lat v) \<le> 0 \<longleftrightarrow> lat u \<le> lat v)))"

section \<open>Notions for the area of a buffered hull\<close>

text \<open>The sum of the shoelace formula over the cyclic pairs of indices, for coordinates
  given as functions of the index.\<close>

definition cyc :: "nat \<Rightarrow> (nat \<Rightarrow> real) \<Rightarrow> (nat \<Rightarrow> real) \<Rightarrow> real" where
  "cyc n X Y = (\<Sum>i<n. X i * Y ((i + 1) mod n) - X ((i + 1) mod n) * Y i)"

text \<open>
  A hull as the data model has it: a convex polygon with its vertices in counter-clockwise
  order, that is, every vertex lies to the left of, or on, every directed edge.
\<close>

definition convexCCW :: "'a point_scheme list \<Rightarrow> bool" where
  "convexCCW hul =
     list_all (\<lambda>i. list_all (\<lambda>q. 0 \<le> cross2D (hul ! i) (hul ! ((i + 1) mod length hul)) q) hul)
       [0..<length hul]"

text \<open>The factor by which \<open>bufferVertex\<close> stretches the offset of a vertex from the
  centroid.\<close>

definition bufferFactor :: "coordConversion \<Rightarrow> real \<Rightarrow> real \<Rightarrow> real \<Rightarrow> 'a point_scheme \<Rightarrow> real" where
  "bufferFactor conv bufferMeters centLat centLon h =
     (let dLatM = (lat h - centLat) * metersPerDegLat conv;
          dLonM = (lon h - centLon) * metersPerDegLon conv;
          dist = sqrt (dLatM * dLatM + dLonM * dLonM)
      in if dist < 0.001 then 1 else 1 + bufferMeters / dist)"

section \<open>Colour mapping: boundary values\<close>

lemma lerpColor_zero: "lerpColor c1 c2 0 = c1"
  by (simp add: lerpColor_def Math_round_def)

text \<open>
  Claim C5. For every threshold with \<open>0 < low \<le> high\<close>, \<open>valueToColor\<close> maps the value
  \<open>low\<close> to the yellow stop, the value 0 to the green stop and, when \<open>low < high\<close>, the
  value \<open>high\<close> to the orange stop.
\<close>

theorem valueToColor_boundaries:
  "0 < low th \<Longrightarrow> low th \<le> high th \<Longrightarrow>
     valueToColor (low th) th = C_YELLOW \<and> valueToColor 0 th = C_GREEN \<and>
     (low th < high th \<longrightarrow> valueToColor (high th) th = C_ORANGE)"
  by (simp add: valueToColor_def lerpColor_zero)

theorem valueToColor_boundaries_witness:
  "(0::real) < low \<lparr>low = 1, high = 204\<rparr> \<and> low \<lparr>low = 1, high = 204\<rparr> \<le> high \<lparr>low = 1, high = 204\<rparr> \<and>
     valueToColor 1 \<lparr>low = 1, high = 204\<rparr> = C_YELLOW \<and>
     valueToColor 0 \<lparr>low = 1, high = 204\<rparr> = C_GREEN \<and>
     valueToColor 204 \<lparr>low = 1, high = 204\<rparr> = C_ORANGE"
  using valueToColor_boundaries [of "\<lparr>low = 1, high = 204\<rparr>"] by simp

section \<open>Inverse-distance weighting: exact bounds and the exact-value shortcut\<close>

lemma distSq_nonneg: "0 \<le> distSq conv qlat qlon p"
  by (simp add: distSq_def Let_def)

lemma idwLoop_bounds:
  "0 \<le> den \<Longrightarrow> lo * den \<le> num \<Longrightarrow> num \<le> hi * den \<Longrightarrow>
   (\<forall>p \<in> set ps. lo \<le> val p \<and> val p \<le> hi) \<Longrightarrow> 0 < den \<or> ps \<noteq> [] \<Longrightarrow>
   lo \<le> idwLoop conv qlat qlon num den ps \<and> idwLoop conv qlat qlon num den ps \<le> hi"
proof (induction ps arbitrary: num den)
  case Nil
  then have "0 < den" by simp
  with Nil show ?case by (simp add: pos_le_divide_eq pos_divide_le_eq)
next
  case (Cons p ps)
  show ?case
  proof (cases "distSq conv qlat qlon p < 1")
    case True
    with Cons.prems show ?thesis by simp
  next
    case False
    define w where "w = 1 / distSq conv qlat qlon p"
    from False have w: "0 < w" by (simp add: w_def)
    have pv: "lo \<le> val p" "val p \<le> hi" using Cons.prems(4) by auto
    have 1: "0 \<le> den + w" using w Cons.prems(1) by simp
    have 2: "lo * (den + w) \<le> num + val p * w"
      using Cons.prems(2) pv(1) w by (simp add: distrib_left add_mono mult_right_mono)
    have 3: "num + val p * w \<le> hi * (den + w)"
      using Cons.prems(3) pv(2) w by (simp add: distrib_left add_mono mult_right_mono)
    have 4: "\<forall>p \<in> set ps. lo \<le> val p \<and> val p \<le> hi" using Cons.prems(4) by simp
    have 5: "0 < den + w \<or> ps \<noteq> []" using w Cons.prems(1) by simp
    from Cons.IH [OF 1 2 3 4 5] False show ?thesis by (simp add: w_def Let_def)
  qed
qed

text \<open>
  In exact arithmetic the value of \<open>computeIDW\<close> lies between the minimum and the maximum
  of the sample values: it is a sample value or a mean with positive weights. The source
  rounds every weight, product, sum and the final quotient to a double; what remains of
  the bounds then is the subject of the section on the bounds in double precision.
\<close>

lemma computeIDW_bounds_exact:
  "points \<noteq> [] \<Longrightarrow>
     Min (val ` set points) \<le> computeIDW conv qlat qlon points \<and>
     computeIDW conv qlat qlon points \<le> Max (val ` set points)"
  unfolding computeIDW_def
  by (rule idwLoop_bounds) simp_all






section \<open>Convex hull: the vertices are input points\<close>

lemma set_insert_by: "set (insert_by cmp v xs) = insert v (set xs)"
  by (induction xs) auto

lemma set_sort_by: "set (sort_by cmp xs) = set xs"
  by (induction xs) (auto simp: sort_by_def set_insert_by)

lemma length_insert_by: "length (insert_by cmp v xs) = Suc (length xs)"
  by (induction xs) auto

lemma length_sort_by: "length (sort_by cmp xs) = length xs"
  by (induction xs) (auto simp: sort_by_def length_insert_by)

lemma set_popWhile: "set (popWhile st p) \<subseteq> set st"
  by (induction st p rule: popWhile.induct) auto

lemma set_foldl_chainStep: "set (foldl chainStep st ps) \<subseteq> set st \<union> set ps"
proof (induction ps arbitrary: st)
  case Nil
  show ?case by simp
next
  case (Cons p ps)
  have "set (foldl chainStep (chainStep st p) ps) \<subseteq> set (chainStep st p) \<union> set ps"
    by (rule Cons.IH)
  also have "\<dots> \<subseteq> set st \<union> set (p # ps)"
    using set_popWhile [of st p] by (auto simp: chainStep_def)
  finally show ?case by simp
qed

lemma set_buildChain: "set (buildChain ps) \<subseteq> set ps"
  using set_foldl_chainStep [of "[]" ps] by (simp add: buildChain_def)

lemma computeConvexHull_subset:
  "set (computeConvexHull points) \<subseteq> set points"
proof (cases "length points < 3")
  case True
  then show ?thesis by (simp add: computeConvexHull_def)
next
  case False
  have "set (butlast (buildChain (sort_by cmpLonLat points))) \<subseteq> set points"
    using set_buildChain [of "sort_by cmpLonLat points"] in_set_butlastD
    by (fastforce simp: set_sort_by)
  moreover have "set (butlast (buildChain (rev (sort_by cmpLonLat points)))) \<subseteq> set points"
    using set_buildChain [of "rev (sort_by cmpLonLat points)"] in_set_butlastD
    by (fastforce simp: set_sort_by)
  ultimately show ?thesis using False by (simp add: computeConvexHull_def Let_def)
qed

text \<open>
  Claim C10. For every input list, every vertex of the polygon returned by
  \<open>computeConvexHull\<close> is an element of the input list.
\<close>

theorem computeConvexHull_vertices_from_input:
  "set (computeConvexHull points) \<subseteq> set points"
  by (rule computeConvexHull_subset)

section \<open>Transect clicks: the minimum length\<close>

text \<open>
  Claim C7. With the tool active and one transect point placed, a second click less than
  3 m from the first is rejected: the second point and its marker are discarded, and
  nothing is drawn or rendered. A second click 3 m or more away is accepted: the transect
  has both points, the line is drawn, and the panel shows the collected samples when
  there are any.
\<close>

theorem handleTransectClick_min_length:
  assumes "active st" and "\<not> measureMode st" and "transectPoints st = [a]"
  shows "(distanceTo a c < 3 \<longrightarrow>
            transectPoints (handleTransectClick distanceTo collectSamples corridor st c) = [a] \<and>
            transectMarkers (handleTransectClick distanceTo collectSamples corridor st c)
              = transectMarkers st \<and>
            transectLine (handleTransectClick distanceTo collectSamples corridor st c)
              = transectLine st \<and>
            corridorPolygon (handleTransectClick distanceTo collectSamples corridor st c)
              = corridorPolygon st \<and>
            panelDisplayed (handleTransectClick distanceTo collectSamples corridor st c)
              = panelDisplayed st \<and>
            lastSamples (handleTransectClick distanceTo collectSamples corridor st c)
              = lastSamples st \<and>
            status (handleTransectClick distanceTo collectSamples corridor st c)
              = Some TransectTooShort) \<and>
         (3 \<le> distanceTo a c \<longrightarrow>
            transectPoints (handleTransectClick distanceTo collectSamples corridor st c) = [a, c] \<and>
            transectLine (handleTransectClick distanceTo collectSamples corridor st c)
              = Some (a, c) \<and>
            (collectSamples a c \<noteq> [] \<longrightarrow>
               panelDisplayed (handleTransectClick distanceTo collectSamples corridor st c) \<and>
               lastSamples (handleTransectClick distanceTo collectSamples corridor st c)
                 = Some (collectSamples a c)))"
  using assms
  by (simp add: handleTransectClick_def Let_def showStatus_def hideStatus_def
      drawTransectOnMap_def renderPanel_def butlast_append)

theorem handleTransectClick_min_length_witness:
  "transectPoints
     (handleTransectClick (\<lambda>p q. 111320 * \<bar>lat p - lat q\<bar>) (\<lambda>p q. [1::nat]) (\<lambda>p q. [])
        \<lparr>active = True, measureMode = False, transectPoints = [\<lparr>lat = 0, lon = 0\<rparr>],
         transectMarkers = [\<lparr>lat = 0, lon = 0\<rparr>], transectLine = None, corridorPolygon = None,
         panelDisplayed = False, status = Some ClickSecondPoint, lastSamples = None\<rparr>
        \<lparr>lat = 2 / 111320, lon = 0\<rparr>) = [\<lparr>lat = 0, lon = 0\<rparr>] \<and>
   transectLine
     (handleTransectClick (\<lambda>p q. 111320 * \<bar>lat p - lat q\<bar>) (\<lambda>p q. [1::nat]) (\<lambda>p q. [])
        \<lparr>active = True, measureMode = False, transectPoints = [\<lparr>lat = 0, lon = 0\<rparr>],
         transectMarkers = [\<lparr>lat = 0, lon = 0\<rparr>], transectLine = None, corridorPolygon = None,
         panelDisplayed = False, status = Some ClickSecondPoint, lastSamples = None\<rparr>
        \<lparr>lat = 2 / 111320, lon = 0\<rparr>) = None \<and>
   transectPoints
     (handleTransectClick (\<lambda>p q. 111320 * \<bar>lat p - lat q\<bar>) (\<lambda>p q. [1::nat]) (\<lambda>p q. [])
        \<lparr>active = True, measureMode = False, transectPoints = [\<lparr>lat = 0, lon = 0\<rparr>],
         transectMarkers = [\<lparr>lat = 0, lon = 0\<rparr>], transectLine = None, corridorPolygon = None,
         panelDisplayed = False, status = Some ClickSecondPoint, lastSamples = None\<rparr>
        \<lparr>lat = 5 / 111320, lon = 0\<rparr>) = [\<lparr>lat = 0, lon = 0\<rparr>, \<lparr>lat = 5 / 111320, lon = 0\<rparr>] \<and>
   panelDisplayed
     (handleTransectClick (\<lambda>p q. 111320 * \<bar>lat p - lat q\<bar>) (\<lambda>p q. [1::nat]) (\<lambda>p q. [])
        \<lparr>active = True, measureMode = False, transectPoints = [\<lparr>lat = 0, lon = 0\<rparr>],
         transectMarkers = [\<lparr>lat = 0, lon = 0\<rparr>], transectLine = None, corridorPolygon = None,
         panelDisplayed = False, status = Some ClickSecondPoint, lastSamples = None\<rparr>
        \<lparr>lat = 5 / 111320, lon = 0\<rparr>)"
  using
    handleTransectClick_min_length [of
        "\<lparr>active = True, measureMode = False, transectPoints = [\<lparr>lat = 0, lon = 0\<rparr>],
         transectMarkers = [\<lparr>lat = 0, lon = 0\<rparr>], transectLine = None, corridorPolygon = None,
         panelDisplayed = False, status = Some ClickSecondPoint, lastSamples = None\<rparr>"
        "\<lparr>lat = 0, lon = 0\<rparr>" "\<lambda>p q. 111320 * \<bar>lat p - lat q\<bar>" "\<lparr>lat = 2 / 111320, lon = 0\<rparr>"
        "\<lambda>p q. [1::nat]" "\<lambda>p q. []"]
    handleTransectClick_min_length [of
        "\<lparr>active = True, measureMode = False, transectPoints = [\<lparr>lat = 0, lon = 0\<rparr>],
         transectMarkers = [\<lparr>lat = 0, lon = 0\<rparr>], transectLine = None, corridorPolygon = None,
         panelDisplayed = False, status = Some ClickSecondPoint, lastSamples = None\<rparr>"
        "\<lparr>lat = 0, lon = 0\<rparr>" "\<lambda>p q. 111320 * \<bar>lat p - lat q\<bar>" "\<lparr>lat = 5 / 111320, lon = 0\<rparr>"
        "\<lambda>p q. [1::nat]" "\<lambda>p q. []"]
  by simp

section \<open>Inverse-distance weighting: the bounds in double precision\<close>

subsection \<open>Evaluating the rounding\<close>

lemma rne_error: "\<bar>of_int (rne y) - y\<bar> \<le> 1 / 2"
  unfolding rne_def Let_def by (auto; linarith)

lemma roundDouble_scaled:
  assumes s: "s = 2 ^ i / 2 ^ j" and lo: "2 ^ 52 \<le> \<bar>x\<bar> * s" and hi: "\<bar>x\<bar> * s < 2 ^ 53"
  shows "roundDouble x = of_int (rne (x * s)) / s"
proof -
  have sp: "s = 2 powr (real i - real j)"
    unfolding s by (simp add: powr_diff powr_realpow)
  have s0: "0 < s" unfolding sp by simp
  have x0: "x \<noteq> 0" using lo by auto
  then have ax: "0 < \<bar>x\<bar>" by simp
  have "log 2 (\<bar>x\<bar> * s) = log 2 \<bar>x\<bar> + (real i - real j)"
    using ax s0 unfolding sp by (simp add: log_mult)
  moreover have "52 \<le> log 2 (\<bar>x\<bar> * s)"
  proof -
    have "log 2 (2 ^ 52) \<le> log 2 (\<bar>x\<bar> * s)"
      using lo ax s0 by (intro log_mono) auto
    moreover have "log 2 ((2::real) ^ 52) = 52" by (subst log_nat_power) simp_all
    ultimately show ?thesis by (simp only:)
  qed
  moreover have "log 2 (\<bar>x\<bar> * s) < 53"
  proof -
    have "log 2 (\<bar>x\<bar> * s) < log 2 (2 ^ 53)"
      using hi ax s0 by (intro log_less) auto
    moreover have "log 2 ((2::real) ^ 53) = 53" by (subst log_nat_power) simp_all
    ultimately show ?thesis by (simp only:)
  qed
  ultimately have "52 - (real i - real j) \<le> log 2 \<bar>x\<bar>" "log 2 \<bar>x\<bar> < 53 - (real i - real j)"
    by linarith+
  then have "\<lfloor>log 2 \<bar>x\<bar>\<rfloor> = 52 - (int i - int j)"
    by (intro floor_unique) auto
  then have e: "of_int \<lfloor>log 2 \<bar>x\<bar>\<rfloor> = 52 - (real i - real j)" by simp
  have 1: "2 powr (52 - of_int \<lfloor>log 2 \<bar>x\<bar>\<rfloor>) = s" unfolding e sp by simp
  have 2: "2 powr (of_int \<lfloor>log 2 \<bar>x\<bar>\<rfloor> - 52) = 1 / s"
  proof -
    have "2 powr (of_int \<lfloor>log 2 \<bar>x\<bar>\<rfloor> - 52) = 2 powr (- (real i - real j))"
      unfolding e by simp
    also have "\<dots> = 1 / 2 powr (real i - real j)"
      by (simp only: powr_minus_divide)
    finally show ?thesis unfolding sp .
  qed
  show ?thesis using x0 by (simp add: roundDouble_def Let_def 1 2)
qed

lemma roundDouble_evalI:
  assumes "x * (2 ^ i / 2 ^ j) = y" and "2 ^ 52 \<le> \<bar>y\<bar>" and "\<bar>y\<bar> < 2 ^ 53"
    and "rne y = m" and "of_int m * 2 ^ j / 2 ^ i = z"
  shows "roundDouble x = z"
proof -
  have a: "\<bar>x\<bar> * (2 ^ i / 2 ^ j) = \<bar>y\<bar>" using assms(1) by (auto simp: abs_mult)
  have "roundDouble x = of_int (rne (x * (2 ^ i / 2 ^ j))) / (2 ^ i / 2 ^ j)"
    by (rule roundDouble_scaled [OF refl]) (simp_all only: a assms)
  then show ?thesis using assms(1,4,5) by simp
qed

lemma roundDouble_zeroI: "x = 0 \<Longrightarrow> roundDouble x = 0"
  by (simp add: roundDouble_def)

text \<open>The relative error of one rounding is at most 2 to the power -53.\<close>

lemma roundDouble_error: "\<bar>roundDouble x - x\<bar> \<le> \<bar>x\<bar> / 2 ^ 53"
proof (cases "x = 0")
  case True
  then show ?thesis by (simp add: roundDouble_def)
next
  case False
  define e where "e = \<lfloor>log 2 \<bar>x\<bar>\<rfloor>"
  define s :: real where "s = 2 powr (52 - of_int e)"
  have s0: "0 < s" by (simp add: s_def)
  have inv: "2 powr (of_int e - 52) = 1 / s"
  proof -
    have "2 powr (of_int e - 52) = 2 powr (- (52 - real_of_int e))" by simp
    also have "\<dots> = 1 / 2 powr (52 - real_of_int e)" by (simp only: powr_minus_divide)
    finally show ?thesis unfolding s_def .
  qed
  have rd: "roundDouble x = of_int (rne (x * s)) / s"
    using False by (simp add: roundDouble_def Let_def e_def [symmetric] s_def [symmetric] inv)
  have "of_int e \<le> log 2 \<bar>x\<bar>" unfolding e_def by simp
  then have "2 powr (of_int e) \<le> 2 powr (log 2 \<bar>x\<bar>)" by simp
  then have "2 powr (of_int e) \<le> \<bar>x\<bar>" using False by simp
  then have "2 powr (of_int e) * s \<le> \<bar>x\<bar> * s" using s0 by simp
  moreover have "2 powr (of_int e) * s = 2 powr 52"
    unfolding s_def by (simp add: powr_add [symmetric])
  moreover have "(2::real) powr 52 = 2 ^ 52" by (simp add: powr_numeral)
  ultimately have big: "2 ^ 52 \<le> \<bar>x\<bar> * s" by simp
  have "\<bar>of_int (rne (x * s)) - x * s\<bar> \<le> 1 / 2" by (rule rne_error)
  then have "\<bar>of_int (rne (x * s)) - x * s\<bar> / s \<le> (1 / 2) / s"
    using s0 by (intro divide_right_mono) auto
  moreover have "\<bar>of_int (rne (x * s)) - x * s\<bar> / s = \<bar>roundDouble x - x\<bar>"
  proof -
    have "roundDouble x - x = (of_int (rne (x * s)) - x * s) / s"
      using s0 by (simp add: rd field_simps)
    then show ?thesis using s0 by (simp add: abs_divide)
  qed
  moreover have "(1 / 2) / s \<le> \<bar>x\<bar> / 2 ^ 53"
    using big s0 by (simp add: field_simps)
  ultimately show ?thesis by linarith
qed

subsection \<open>Three samples of the same value\<close>

lemma idwLoop_fl_step:
  assumes "fl (qlat - plat) = xa" and "fl (xa * mlat) = dLat"
    and "fl (qlon - plon) = xb" and "fl (xb * mlon) = dLon"
    and "fl (dLat * dLat) = sa" and "fl (dLon * dLon) = sb" and "fl (sa + sb) = d"
    and "\<not> d < 1" and "fl (1 / d) = w" and "fl (v * w) = t"
    and "fl (num + t) = numn" and "fl (den + w) = denn"
  shows "idwLoop_fl fl \<lparr>metersPerDegLat = mlat, metersPerDegLon = mlon, feetToMeters = ftm\<rparr>
           qlat qlon num den (\<lparr>lat = plat, lon = plon, val = v\<rparr> # ps)
         = idwLoop_fl fl \<lparr>metersPerDegLat = mlat, metersPerDegLon = mlon, feetToMeters = ftm\<rparr>
           qlat qlon numn denn ps"
  using assms by (simp add: distSq_fl_def Let_def)

text \<open>
  The run of \<open>computeIDW\<close> in double precision for the query (0, 0) and three samples of
  value 3 at (1, 0), (0, 1) and (7, 7), rounding by rounding: the result is
  3.0000000000000004.
\<close>

lemma computeIDW_fl_three_samples:
  "computeIDW_fl roundDouble
     \<lparr>metersPerDegLat = 111320, metersPerDegLon = 85390, feetToMeters = 0.3048\<rparr> 0 0
     [\<lparr>lat = 1, lon = 0, val = 3\<rparr>, \<lparr>lat = 0, lon = 1, val = 3\<rparr>, \<lparr>lat = 7, lon = 7, val = 3\<rparr>]
   = 6755399441055745 / 2 ^ 51"
proof -
  let ?conv = "\<lparr>metersPerDegLat = 111320, metersPerDegLon = 85390, feetToMeters = 0.3048\<rparr>"
  have step1: "idwLoop_fl roundDouble ?conv 0 0 0 0 [\<lparr>lat = 1, lon = 0, val = 3\<rparr>, \<lparr>lat = 0, lon = 1, val = 3\<rparr>, \<lparr>lat = 7, lon = 7, val = 3\<rparr>]
      = idwLoop_fl roundDouble ?conv 0 0 (2341340079399919 / 2 ^ 83) (3121786772533225 / 2 ^ 85) [\<lparr>lat = 0, lon = 1, val = 3\<rparr>, \<lparr>lat = 7, lon = 7, val = 3\<rparr>]"
  proof (rule idwLoop_fl_step [where xa = "- 1" and dLat = "- 111320" and xb = "0" and dLon = "0" and sa = "12392142400" and sb = "0" and d = "12392142400" and w = "3121786772533225 / 2 ^ 85" and t = "2341340079399919 / 2 ^ 83" and numn = "2341340079399919 / 2 ^ 83" and denn = "3121786772533225 / 2 ^ 85"])
    show "roundDouble (0 - 1) = - 1"
      by (rule roundDouble_evalI [where i = 52 and j = 0 and m = "- 4503599627370496" and y = "- 4503599627370496"])
       (simp_all add: rne_def Let_def)
    show "roundDouble ((- 1) * 111320) = - 111320"
      by (rule roundDouble_evalI [where i = 36 and j = 0 and m = "- 7649852150251520" and y = "- 7649852150251520"])
       (simp_all add: rne_def Let_def)
    show "roundDouble (0 - 0) = 0"
      by (rule roundDouble_zeroI) simp
    show "roundDouble (0 * 85390) = 0"
      by (rule roundDouble_zeroI) simp
    show "roundDouble ((- 111320) * (- 111320)) = 12392142400"
      by (rule roundDouble_evalI [where i = 19 and j = 0 and m = "6497051554611200" and y = "6497051554611200"])
       (simp_all add: rne_def Let_def)
    show "roundDouble (0 * 0) = 0"
      by (rule roundDouble_zeroI) simp
    show "roundDouble (12392142400 + 0) = 12392142400"
      by (rule roundDouble_evalI [where i = 19 and j = 0 and m = "6497051554611200" and y = "6497051554611200"])
       (simp_all add: rne_def Let_def)
    show "\<not> (12392142400::real) < 1" by simp
    show "roundDouble (1 / 12392142400) = 3121786772533225 / 2 ^ 85"
      by (rule roundDouble_evalI [where i = 86 and j = 0 and m = "6243573545066450" and y = "1208925819614629174706176 / 193627225"])
       (simp_all add: rne_def Let_def)
    show "roundDouble (3 * (3121786772533225 / 2 ^ 85)) = 2341340079399919 / 2 ^ 83"
      by (rule roundDouble_evalI [where i = 84 and j = 0 and m = "4682680158799838" and y = "9365360317599675 / 2 ^ 1"])
       (simp_all add: rne_def Let_def)
    show "roundDouble (0 + (2341340079399919 / 2 ^ 83)) = 2341340079399919 / 2 ^ 83"
      by (rule roundDouble_evalI [where i = 84 and j = 0 and m = "4682680158799838" and y = "4682680158799838"])
       (simp_all add: rne_def Let_def)
    show "roundDouble (0 + (3121786772533225 / 2 ^ 85)) = 3121786772533225 / 2 ^ 85"
      by (rule roundDouble_evalI [where i = 86 and j = 0 and m = "6243573545066450" and y = "6243573545066450"])
       (simp_all add: rne_def Let_def)
  qed
  have step2: "idwLoop_fl roundDouble ?conv 0 0 (2341340079399919 / 2 ^ 83) (3121786772533225 / 2 ^ 85) [\<lparr>lat = 0, lon = 1, val = 3\<rparr>, \<lparr>lat = 7, lon = 7, val = 3\<rparr>]
      = idwLoop_fl roundDouble ?conv 0 0 (6320550156189849 / 2 ^ 83) (2106850052063283 / 2 ^ 83) [\<lparr>lat = 7, lon = 7, val = 3\<rparr>]"
  proof (rule idwLoop_fl_step [where xa = "0" and dLat = "0" and xb = "- 1" and dLon = "- 85390" and sa = "0" and sb = "7291452100" and d = "7291452100" and w = "5305613435719907 / 2 ^ 85" and t = "1989605038394965 / 2 ^ 82" and numn = "6320550156189849 / 2 ^ 83" and denn = "2106850052063283 / 2 ^ 83"])
    show "roundDouble (0 - 0) = 0"
      by (rule roundDouble_zeroI) simp
    show "roundDouble (0 * 111320) = 0"
      by (rule roundDouble_zeroI) simp
    show "roundDouble (0 - 1) = - 1"
      by (rule roundDouble_evalI [where i = 52 and j = 0 and m = "- 4503599627370496" and y = "- 4503599627370496"])
       (simp_all add: rne_def Let_def)
    show "roundDouble ((- 1) * 85390) = - 85390"
      by (rule roundDouble_evalI [where i = 36 and j = 0 and m = "- 5867956118487040" and y = "- 5867956118487040"])
       (simp_all add: rne_def Let_def)
    show "roundDouble (0 * 0) = 0"
      by (rule roundDouble_zeroI) simp
    show "roundDouble ((- 85390) * (- 85390)) = 7291452100"
      by (rule roundDouble_evalI [where i = 20 and j = 0 and m = "7645641677209600" and y = "7645641677209600"])
       (simp_all add: rne_def Let_def)
    show "roundDouble (0 + 7291452100) = 7291452100"
      by (rule roundDouble_evalI [where i = 20 and j = 0 and m = "7645641677209600" and y = "7645641677209600"])
       (simp_all add: rne_def Let_def)
    show "\<not> (7291452100::real) < 1" by simp
    show "roundDouble (1 / 7291452100) = 5305613435719907 / 2 ^ 85"
      by (rule roundDouble_evalI [where i = 85 and j = 0 and m = "5305613435719907" and y = "9671406556917033397649408 / 1822863025"])
       (simp_all add: rne_def Let_def)
    show "roundDouble (3 * (5305613435719907 / 2 ^ 85)) = 1989605038394965 / 2 ^ 82"
      by (rule roundDouble_evalI [where i = 84 and j = 0 and m = "7958420153579860" and y = "15916840307159721 / 2 ^ 1"])
       (simp_all add: rne_def Let_def)
    show "roundDouble ((2341340079399919 / 2 ^ 83) + (1989605038394965 / 2 ^ 82)) = 6320550156189849 / 2 ^ 83"
      by (rule roundDouble_evalI [where i = 83 and j = 0 and m = "6320550156189849" and y = "6320550156189849"])
       (simp_all add: rne_def Let_def)
    show "roundDouble ((3121786772533225 / 2 ^ 85) + (5305613435719907 / 2 ^ 85)) = 2106850052063283 / 2 ^ 83"
      by (rule roundDouble_evalI [where i = 85 and j = 0 and m = "8427400208253132" and y = "8427400208253132"])
       (simp_all add: rne_def Let_def)
  qed
  have step3: "idwLoop_fl roundDouble ?conv 0 0 (6320550156189849 / 2 ^ 83) (2106850052063283 / 2 ^ 83) [\<lparr>lat = 7, lon = 7, val = 3\<rparr>]
      = idwLoop_fl roundDouble ?conv 0 0 (6350632412357855 / 2 ^ 83) (4233754941571903 / 2 ^ 84) []"
  proof (rule idwLoop_fl_step [where xa = "- 7" and dLat = "- 779240" and xb = "- 7" and dLon = "- 597730" and sa = "607214977600" and sb = "357281152900" and d = "964496130500" and w = "5134038386006279 / 2 ^ 92" and t = "3850528789504709 / 2 ^ 90" and numn = "6350632412357855 / 2 ^ 83" and denn = "4233754941571903 / 2 ^ 84"])
    show "roundDouble (0 - 7) = - 7"
      by (rule roundDouble_evalI [where i = 50 and j = 0 and m = "- 7881299347898368" and y = "- 7881299347898368"])
       (simp_all add: rne_def Let_def)
    show "roundDouble ((- 7) * 111320) = - 779240"
      by (rule roundDouble_evalI [where i = 33 and j = 0 and m = "- 6693620631470080" and y = "- 6693620631470080"])
       (simp_all add: rne_def Let_def)
    show "roundDouble (0 - 7) = - 7"
      by (rule roundDouble_evalI [where i = 50 and j = 0 and m = "- 7881299347898368" and y = "- 7881299347898368"])
       (simp_all add: rne_def Let_def)
    show "roundDouble ((- 7) * 85390) = - 597730"
      by (rule roundDouble_evalI [where i = 33 and j = 0 and m = "- 5134461603676160" and y = "- 5134461603676160"])
       (simp_all add: rne_def Let_def)
    show "roundDouble ((- 779240) * (- 779240)) = 607214977600"
      by (rule roundDouble_evalI [where i = 13 and j = 0 and m = "4974305096499200" and y = "4974305096499200"])
       (simp_all add: rne_def Let_def)
    show "roundDouble ((- 597730) * (- 597730)) = 357281152900"
      by (rule roundDouble_evalI [where i = 14 and j = 0 and m = "5853694409113600" and y = "5853694409113600"])
       (simp_all add: rne_def Let_def)
    show "roundDouble (607214977600 + 357281152900) = 964496130500"
      by (rule roundDouble_evalI [where i = 13 and j = 0 and m = "7901152301056000" and y = "7901152301056000"])
       (simp_all add: rne_def Let_def)
    show "\<not> (964496130500::real) < 1" by simp
    show "roundDouble (1 / 964496130500) = 5134038386006279 / 2 ^ 92"
      by (rule roundDouble_evalI [where i = 92 and j = 0 and m = "5134038386006279" and y = "1237940039285380274899124224 / 241124032625"])
       (simp_all add: rne_def Let_def)
    show "roundDouble (3 * (5134038386006279 / 2 ^ 92)) = 3850528789504709 / 2 ^ 90"
      by (rule roundDouble_evalI [where i = 91 and j = 0 and m = "7701057579009418" and y = "15402115158018837 / 2 ^ 1"])
       (simp_all add: rne_def Let_def)
    show "roundDouble ((6320550156189849 / 2 ^ 83) + (3850528789504709 / 2 ^ 90)) = 6350632412357855 / 2 ^ 83"
      by (rule roundDouble_evalI [where i = 83 and j = 0 and m = "6350632412357855" and y = "812880948781805381 / 2 ^ 7"])
       (simp_all add: rne_def Let_def)
    show "roundDouble ((2106850052063283 / 2 ^ 83) + (5134038386006279 / 2 ^ 92)) = 4233754941571903 / 2 ^ 84"
      by (rule roundDouble_evalI [where i = 85 and j = 0 and m = "8467509883143806" and y = "1083841265042407175 / 2 ^ 7"])
       (simp_all add: rne_def Let_def)
  qed
  have quot: "roundDouble ((6350632412357855 / 2 ^ 83) / (4233754941571903 / 2 ^ 84)) = 6755399441055745 / 2 ^ 51"
    by (rule roundDouble_evalI [where i = 51 and j = 0 and m = "6755399441055745" and y = "28600705765861829874769020846080 / 4233754941571903"])
       (simp_all add: rne_def Let_def)
  have fin: "idwLoop_fl roundDouble ?conv 0 0 (6350632412357855 / 2 ^ 83) (4233754941571903 / 2 ^ 84) []
      = 6755399441055745 / 2 ^ 51"
    using quot by simp
  show ?thesis
    unfolding computeIDW_fl_def step1 step2 step3 fin ..
qed

text \<open>
  Claim C4, as stated: the value returned by \<open>computeIDW\<close> lies between the minimum and
  the maximum of the sample values. In double precision the three samples of value 3 above
  give 3.0000000000000004, which is above their maximum.
\<close>

theorem computeIDW_fl_bounds_counterexample:
  "[\<lparr>lat = 1, lon = 0, val = 3\<rparr>, \<lparr>lat = 0, lon = 1, val = 3\<rparr>,
      \<lparr>lat = 7, lon = 7, val = 3::real\<rparr>] \<noteq> [] \<and>
   Max (val ` set [\<lparr>lat = 1, lon = 0, val = 3\<rparr>, \<lparr>lat = 0, lon = 1, val = 3\<rparr>,
      \<lparr>lat = 7, lon = 7, val = 3::real\<rparr>]) = 3 \<and>
   computeIDW_fl roundDouble
     \<lparr>metersPerDegLat = 111320, metersPerDegLon = 85390, feetToMeters = 0.3048\<rparr> 0 0
     [\<lparr>lat = 1, lon = 0, val = 3\<rparr>, \<lparr>lat = 0, lon = 1, val = 3\<rparr>, \<lparr>lat = 7, lon = 7, val = 3\<rparr>]
   = 6755399441055745 / 2 ^ 51 \<and>
   \<not> computeIDW_fl roundDouble
       \<lparr>metersPerDegLat = 111320, metersPerDegLon = 85390, feetToMeters = 0.3048\<rparr> 0 0
       [\<lparr>lat = 1, lon = 0, val = 3\<rparr>, \<lparr>lat = 0, lon = 1, val = 3\<rparr>, \<lparr>lat = 7, lon = 7, val = 3\<rparr>]
     \<le> Max (val ` set [\<lparr>lat = 1, lon = 0, val = 3\<rparr>, \<lparr>lat = 0, lon = 1, val = 3\<rparr>,
      \<lparr>lat = 7, lon = 7, val = 3::real\<rparr>])"
  unfolding computeIDW_fl_three_samples by simp

subsection \<open>The bounds up to rounding\<close>

lemma rel_bounds:
  fixes x :: real
  assumes "\<bar>y - x\<bar> \<le> u * \<bar>x\<bar>" and "0 \<le> x"
  shows "(1 - u) * x \<le> y" and "y \<le> (1 + u) * x"
proof -
  from assms have "\<bar>y - x\<bar> \<le> u * x" by simp
  then show "(1 - u) * x \<le> y" and "y \<le> (1 + u) * x"
    by (simp_all add: algebra_simps abs_le_iff)
qed

lemma mult_le_self:
  fixes c :: real
  assumes "c \<le> 1" and "0 \<le> X"
  shows "c * X \<le> X"
  using mult_right_mono [OF assms] by simp

lemma self_le_mult:
  fixes c :: real
  assumes "1 \<le> c" and "0 \<le> X"
  shows "X \<le> c * X"
  using mult_right_mono [OF assms] by simp

lemma den_lower_step:
  fixes a :: real
  assumes "0 < a" and "c \<le> 1" and "0 \<le> w" and "c * W \<le> x"
  shows "(a * c) * (W + w) \<le> a * (x + w)"
proof -
  have "c * w \<le> w" by (rule mult_le_self [OF assms(2,3)])
  with assms(4) have "c * W + c * w \<le> x + w" by linarith
  then have "a * (c * W + c * w) \<le> a * (x + w)" using assms(1) by simp
  then show ?thesis by (simp add: algebra_simps)
qed

lemma den_upper_step:
  fixes b :: real
  assumes "0 \<le> b" and "1 \<le> c" and "0 \<le> w" and "x \<le> c * W"
  shows "b * (x + w) \<le> (b * c) * (W + w)"
proof -
  have "w \<le> c * w" by (rule self_le_mult [OF assms(2,3)])
  with assms(4) have "x + w \<le> c * W + c * w" by linarith
  then have "b * (x + w) \<le> b * (c * W + c * w)" using assms(1) by (rule mult_left_mono)
  then show ?thesis by (simp add: algebra_simps)
qed

lemma num_lower_step:
  fixes a :: real
  assumes a: "0 < a" "a \<le> 1" and gm: "0 < gm" "gm \<le> 1" and lo: "0 \<le> lo"
    and W: "0 \<le> W" and w: "0 \<le> w"
    and x: "lo * (gm * W) \<le> x" and t: "a * (lo * w) \<le> t"
  shows "lo * (a * a * gm * (W + w)) \<le> a * (x + t)"
proof -
  have 1: "a * (lo * (gm * W)) \<le> lo * (gm * W)"
    by (rule mult_le_self [OF a(2)]) (use lo gm W in simp)
  have "gm * (a * (lo * w)) \<le> a * (lo * w)"
    by (rule mult_le_self [OF gm(2)]) (use a lo w in simp)
  with t have 2: "gm * (a * (lo * w)) \<le> t" by linarith
  from 1 x have "a * (lo * (gm * W)) \<le> x" by linarith
  with 2 have "a * (lo * (gm * W)) + gm * (a * (lo * w)) \<le> x + t" by linarith
  then have "a * (a * (lo * (gm * W)) + gm * (a * (lo * w))) \<le> a * (x + t)"
    using a(1) by simp
  then show ?thesis by (simp add: algebra_simps)
qed

lemma num_upper_step:
  fixes b :: real
  assumes b: "1 \<le> b" and d: "1 \<le> d" and hi: "0 \<le> hi"
    and W: "0 \<le> W" and w: "0 \<le> w"
    and x: "x \<le> hi * (d * W)" and t: "t \<le> b * (hi * w)"
  shows "b * (x + t) \<le> hi * (b * b * d * (W + w))"
proof -
  have 1: "hi * (d * W) \<le> b * (hi * (d * W))"
    by (rule self_le_mult [OF b]) (use hi d W in simp)
  have "b * (hi * w) \<le> d * (b * (hi * w))"
    by (rule self_le_mult [OF d]) (use b hi w in simp)
  with t have 2: "t \<le> d * (b * (hi * w))" by linarith
  from 1 x have "x \<le> b * (hi * (d * W))" by linarith
  with 2 have "x + t \<le> b * (hi * (d * W)) + d * (b * (hi * w))" by linarith
  then have "b * (x + t) \<le> b * (b * (hi * (d * W)) + d * (b * (hi * w)))"
    using b by (intro mult_left_mono) auto
  then show ?thesis by (simp add: algebra_simps)
qed

lemma one_le_mult:
  fixes x :: real
  assumes "1 \<le> x" and "1 \<le> y"
  shows "1 \<le> x * y"
  using mult_mono [of 1 x 1 y] assms by simp

lemma factor_le_one:
  fixes a :: real
  assumes "0 < a" "a \<le> 1" "0 < gm" "gm \<le> 1" "1 \<le> be" "1 \<le> bp"
  shows "a * gm * a ^ k / (be * bp ^ m) \<le> 1"
proof -
  have 1: "a ^ k \<le> 1" using assms(1,2) by (simp add: power_le_one)
  have 2: "a * gm \<le> 1" using assms(1-4) by (simp add: mult_le_one)
  have "a * gm * a ^ k \<le> 1"
    by (rule mult_le_one [OF 2 _ 1]) (use assms(1) in simp)
  moreover have "1 \<le> bp ^ m" using assms(6) by simp
  then have "1 \<le> be * bp ^ m" by (rule one_le_mult [OF assms(5)])
  ultimately show ?thesis by (simp add: divide_le_eq)
qed

lemma factor_ge_one:
  fixes a :: real
  assumes "0 < a" "a \<le> 1" "0 < al" "al \<le> 1" "1 \<le> de" "1 \<le> bp"
  shows "1 \<le> bp * de * bp ^ k / (al * a ^ m)"
proof -
  have 1: "a ^ m \<le> 1" using assms(1,2) by (simp add: power_le_one)
  have "al * a ^ m \<le> 1"
    by (rule mult_le_one [OF assms(4) _ 1]) (use assms(1) in simp)
  moreover have "0 < al * a ^ m" using assms(1,3) by simp
  moreover have "1 \<le> bp ^ k" using assms(6) by simp
  then have "1 \<le> bp * de * bp ^ k"
    by (rule one_le_mult [OF one_le_mult [OF assms(6,5)]])
  ultimately show ?thesis by (simp add: le_divide_eq)
qed

text \<open>
  The invariant of the loop: with \<open>W\<close> the sum of the weights so far, the denominator lies
  between \<open>al * W\<close> and \<open>be * W\<close> and the numerator between \<open>lo * ga * W\<close> and
  \<open>hi * de * W\<close>; a pass of the loop multiplies \<open>al\<close> by \<open>1 - u\<close>, \<open>be\<close> by \<open>1 + u\<close>,
  \<open>ga\<close> by the square of \<open>1 - u\<close> and \<open>de\<close> by the square of \<open>1 + u\<close>.
\<close>

lemma idwLoop_fl_bounds:
  assumes u: "0 \<le> u" "u < 1" and lo: "0 \<le> lo" "lo \<le> hi"
  shows "\<forall>p \<in> set ps. lo \<le> val p \<and> val p \<le> hi \<Longrightarrow>
         0 \<le> W \<Longrightarrow> 0 < W \<or> ps \<noteq> [] \<Longrightarrow>
         0 < al \<Longrightarrow> al \<le> 1 \<Longrightarrow> 1 \<le> be \<Longrightarrow> 0 < ga \<Longrightarrow> ga \<le> 1 \<Longrightarrow> 1 \<le> de \<Longrightarrow>
         al * W \<le> den \<Longrightarrow> den \<le> be * W \<Longrightarrow>
         lo * (ga * W) \<le> num \<Longrightarrow> num \<le> hi * (de * W) \<Longrightarrow>
         \<forall>x \<in> set (idwRounded fl conv qlat qlon num den ps). \<bar>fl x - x\<bar> \<le> u * \<bar>x\<bar> \<Longrightarrow>
         lo * ((1 - u) * ga * (1 - u) ^ (2 * length ps) / (be * (1 + u) ^ length ps))
           \<le> idwLoop_fl fl conv qlat qlon num den ps \<and>
         idwLoop_fl fl conv qlat qlon num den ps
           \<le> hi * ((1 + u) * de * (1 + u) ^ (2 * length ps) / (al * (1 - u) ^ length ps))"
proof (induction ps arbitrary: num den W al be ga de)
  case Nil
  define a where "a = 1 - u"
  define b where "b = 1 + u"
  have a: "0 < a" "a \<le> 1" and b: "1 \<le> b" using u by (simp_all add: a_def b_def)
  have W: "0 < W" using Nil.prems(3) by simp
  have "0 < al * W" using Nil.prems(4) W by simp
  with Nil.prems(10) have den0: "0 < den" by linarith
  have hi0: "0 \<le> hi" using lo by simp
  have "0 \<le> lo * (ga * W)" using lo(1) Nil.prems(7) W by simp
  with Nil.prems(12) have num0: "0 \<le> num" by linarith
  have q0: "0 \<le> num / den" using num0 den0 by simp
  have up: "num / den \<le> hi * (de / al)"
  proof -
    have "num / den \<le> hi * (de * W) / den"
      using Nil.prems(13) den0 by (simp add: divide_right_mono)
    also have "\<dots> \<le> hi * (de * W) / (al * W)"
    proof (rule divide_left_mono)
      show "al * W \<le> den" by (rule Nil.prems(10))
      show "0 \<le> hi * (de * W)" using hi0 Nil.prems(9) W by simp
      show "0 < den * (al * W)" using den0 Nil.prems(4) W by simp
    qed
    also have "\<dots> = hi * (de / al)" using W by simp
    finally show ?thesis .
  qed
  have dn: "lo * (ga / be) \<le> num / den"
  proof -
    have be0: "0 < be" using Nil.prems(6) by simp
    have "lo * (ga / be) = lo * (ga * W) / (be * W)" using W by simp
    also have "\<dots> \<le> lo * (ga * W) / den"
    proof (rule divide_left_mono)
      show "den \<le> be * W" by (rule Nil.prems(11))
      show "0 \<le> lo * (ga * W)" using lo(1) Nil.prems(7) W by simp
      show "0 < be * W * den" using den0 be0 W by simp
    qed
    also have "\<dots> \<le> num / den"
      using Nil.prems(12) den0 by (simp add: divide_right_mono)
    finally show ?thesis .
  qed
  have r: "idwLoop_fl fl conv qlat qlon num den [] = fl (num / den)" using den0 by simp
  have R: "\<bar>fl (num / den) - num / den\<bar> \<le> u * \<bar>num / den\<bar>"
    using Nil.prems(14) den0 by simp
  have "fl (num / den) \<le> b * (num / den)"
    using rel_bounds(2) [OF R q0] by (simp add: b_def)
  also have "\<dots> \<le> b * (hi * (de / al))"
    by (rule mult_left_mono [OF up]) (use b in simp)
  finally have U: "fl (num / den) \<le> hi * (b * de / al)" by (simp add: mult_ac)
  have "a * (lo * (ga / be)) \<le> a * (num / den)"
    by (rule mult_left_mono [OF dn]) (use a in simp)
  also have "\<dots> \<le> fl (num / den)" using rel_bounds(1) [OF R q0] by (simp add: a_def)
  finally have L: "lo * (a * ga / be) \<le> fl (num / den)" by (simp add: mult_ac)
  from U L show ?case unfolding r by (simp add: a_def b_def)
next
  case (Cons p ps)
  define a where "a = 1 - u"
  define b where "b = 1 + u"
  have a: "0 < a" "a \<le> 1" and b: "1 \<le> b" using u by (simp_all add: a_def b_def)
  have hi0: "0 \<le> hi" using lo by simp
  have pv: "lo \<le> val p" "val p \<le> hi" using Cons.prems(1) by simp_all
  have rest: "\<forall>p \<in> set ps. lo \<le> val p \<and> val p \<le> hi" using Cons.prems(1) by simp
  define d where "d = distSq_fl fl conv qlat qlon p"
  show ?case
  proof (cases "d < 1")
    case True
    have r: "idwLoop_fl fl conv qlat qlon num den (p # ps) = val p"
      using True by (simp add: d_def)
    have "lo * (a * ga * a ^ (2 * length (p # ps)) / (be * b ^ length (p # ps))) \<le> lo * 1"
      by (rule mult_left_mono [OF factor_le_one [OF a Cons.prems(7,8,6) b] lo(1)])
    with pv(1) have L: "lo * (a * ga * a ^ (2 * length (p # ps)) / (be * b ^ length (p # ps))) \<le> val p"
      by simp
    have "hi * 1 \<le> hi * (b * de * b ^ (2 * length (p # ps)) / (al * a ^ length (p # ps)))"
      by (rule mult_left_mono [OF factor_ge_one [OF a Cons.prems(4,5,9) b] hi0])
    with pv(2) have U: "val p \<le> hi * (b * de * b ^ (2 * length (p # ps)) / (al * a ^ length (p # ps)))"
      by simp
    from L U show ?thesis unfolding r a_def b_def by blast
  next
    case False
    define w where "w = fl (1 / d)"
    define t where "t = fl (val p * w)"
    have r: "idwLoop_fl fl conv qlat qlon num den (p # ps)
        = idwLoop_fl fl conv qlat qlon (fl (num + t)) (fl (den + w)) ps"
      using False by (simp add: d_def w_def t_def Let_def)
    have rs: "idwRounded fl conv qlat qlon num den (p # ps)
        = [1 / d, val p * w, num + t, den + w]
          @ idwRounded fl conv qlat qlon (fl (num + t)) (fl (den + w)) ps"
      using False by (simp add: d_def w_def t_def Let_def)
    have Rw: "\<bar>fl (1 / d) - 1 / d\<bar> \<le> u * \<bar>1 / d\<bar>"
      and Rt: "\<bar>fl (val p * w) - val p * w\<bar> \<le> u * \<bar>val p * w\<bar>"
      and Rn: "\<bar>fl (num + t) - (num + t)\<bar> \<le> u * \<bar>num + t\<bar>"
      and Rd: "\<bar>fl (den + w) - (den + w)\<bar> \<le> u * \<bar>den + w\<bar>"
      and Rr: "\<forall>x \<in> set (idwRounded fl conv qlat qlon (fl (num + t)) (fl (den + w)) ps).
                 \<bar>fl x - x\<bar> \<le> u * \<bar>x\<bar>"
      using Cons.prems(14) unfolding rs by simp_all
    have d1: "0 < 1 / d" using False by simp
    have "a * (1 / d) \<le> w"
      using rel_bounds(1) [OF Rw less_imp_le [OF d1]] by (simp add: w_def a_def)
    moreover have "0 < a * (1 / d)" using a(1) d1 by (rule mult_pos_pos)
    ultimately have w0: "0 < w" by linarith
    have v0: "0 \<le> val p" using lo(1) pv(1) by linarith
    have vw: "0 \<le> val p * w" using v0 w0 by simp
    have tl: "a * (lo * w) \<le> t"
    proof -
      have "lo * w \<le> val p * w" using pv(1) w0 by simp
      then have "a * (lo * w) \<le> a * (val p * w)" using a(1) by simp
      also have "\<dots> \<le> t" using rel_bounds(1) [OF Rt vw] by (simp add: t_def a_def)
      finally show ?thesis .
    qed
    have tu: "t \<le> b * (hi * w)"
    proof -
      have "t \<le> b * (val p * w)" using rel_bounds(2) [OF Rt vw] by (simp add: t_def b_def)
      also have "\<dots> \<le> b * (hi * w)"
        using pv(2) w0 b by (intro mult_left_mono mult_right_mono) auto
      finally show ?thesis .
    qed
    have t0: "0 \<le> t"
    proof -
      have "0 \<le> a * (lo * w)" using a(1) lo(1) w0 by simp
      with tl show ?thesis by linarith
    qed
    have num0: "0 \<le> num"
    proof -
      have "0 \<le> lo * (ga * W)" using lo(1) Cons.prems(7,2) by simp
      with Cons.prems(12) show ?thesis by linarith
    qed
    have den0: "0 \<le> den"
    proof -
      have "0 \<le> al * W" using Cons.prems(4,2) by simp
      with Cons.prems(10) show ?thesis by linarith
    qed
    have nt: "0 \<le> num + t" using num0 t0 by simp
    have dw: "0 \<le> den + w" using den0 w0 by simp
    have i1: "(a * al) * (W + w) \<le> fl (den + w)"
    proof -
      have "(a * al) * (W + w) \<le> a * (den + w)"
        by (rule den_lower_step [OF a(1) Cons.prems(5) less_imp_le [OF w0] Cons.prems(10)])
      also have "\<dots> \<le> fl (den + w)" using rel_bounds(1) [OF Rd dw] by (simp add: a_def)
      finally show ?thesis .
    qed
    have i2: "fl (den + w) \<le> (b * be) * (W + w)"
    proof -
      have b0: "0 \<le> b" using b by simp
      have "fl (den + w) \<le> b * (den + w)" using rel_bounds(2) [OF Rd dw] by (simp add: b_def)
      also have "\<dots> \<le> (b * be) * (W + w)"
        by (rule den_upper_step [OF b0 Cons.prems(6) less_imp_le [OF w0] Cons.prems(11)])
      finally show ?thesis .
    qed
    have i3: "lo * ((a * a * ga) * (W + w)) \<le> fl (num + t)"
    proof -
      have "lo * (a * a * ga * (W + w)) \<le> a * (num + t)"
        by (rule num_lower_step [OF a Cons.prems(7,8) lo(1) Cons.prems(2) less_imp_le [OF w0]
              Cons.prems(12) tl])
      also have "\<dots> \<le> fl (num + t)" using rel_bounds(1) [OF Rn nt] by (simp add: a_def)
      finally show ?thesis .
    qed
    have i4: "fl (num + t) \<le> hi * ((b * b * de) * (W + w))"
    proof -
      have "fl (num + t) \<le> b * (num + t)" using rel_bounds(2) [OF Rn nt] by (simp add: b_def)
      also have "\<dots> \<le> hi * (b * b * de * (W + w))"
        by (rule num_upper_step [OF b Cons.prems(9) hi0 Cons.prems(2) less_imp_le [OF w0]
              Cons.prems(13) tu])
      finally show ?thesis .
    qed
    have c1: "0 \<le> W + w" "0 < W + w \<or> ps \<noteq> []" using Cons.prems(2) w0 by simp_all
    have c2: "0 < a * al" "a * al \<le> 1" "1 \<le> b * be" "0 < a * a * ga" "a * a * ga \<le> 1"
      "1 \<le> b * b * de"
    proof -
      show "0 < a * al" using a(1) Cons.prems(4) by simp
      show "a * al \<le> 1" using a Cons.prems(4,5) by (simp add: mult_le_one)
      show "1 \<le> b * be" by (rule one_le_mult [OF b Cons.prems(6)])
      show "0 < a * a * ga" using a(1) Cons.prems(7) by simp
      have "a * a \<le> 1" using a by (simp add: mult_le_one)
      then show "a * a * ga \<le> 1" using a Cons.prems(7,8) by (simp add: mult_le_one)
      have "1 \<le> b * b" by (rule one_le_mult [OF b b])
      then show "1 \<le> b * b * de" by (rule one_le_mult [OF _ Cons.prems(9)])
    qed
    note IH = Cons.IH [OF rest c1 c2 i1 i2 i3 i4 Rr]
    have e1: "(1 - u) * (a * a * ga) * (1 - u) ^ (2 * length ps) / (b * be * (1 + u) ^ length ps)
        = (1 - u) * ga * (1 - u) ^ (2 * length (p # ps)) / (be * (1 + u) ^ length (p # ps))"
      by (simp add: a_def b_def power2_eq_square algebra_simps)
    have e2: "(1 + u) * (b * b * de) * (1 + u) ^ (2 * length ps) / (a * al * (1 - u) ^ length ps)
        = (1 + u) * de * (1 + u) ^ (2 * length (p # ps)) / (al * (1 - u) ^ length (p # ps))"
      by (simp add: a_def b_def power2_eq_square algebra_simps)
    from IH show ?thesis unfolding r e1 e2 .
  qed
qed


text \<open>
  Claim C4, amended. For every non-empty list of sample points whose values are not
  negative and every query coordinate, the value returned by \<open>computeIDW\<close> lies between
  the minimum and the maximum of the sample values up to rounding. With \<open>n\<close> samples, and
  with a relative error of at most \<open>u\<close> in every rounding of a weight, of a product of
  value and weight, of a running sum and of the final quotient (for doubles \<open>u\<close> is 2 to
  the power -53, short of overflow and underflow), the value is at least the minimum times
  \<open>(1 - u) ^ (2 * n + 1) / (1 + u) ^ n\<close> and at most the maximum times
  \<open>(1 + u) ^ (2 * n + 1) / (1 - u) ^ n\<close>. In exact arithmetic (\<open>u = 0\<close>) these are the
  minimum and the maximum.
\<close>

theorem computeIDW_fl_bounds:
  assumes "0 \<le> u" and "u < 1" and "points \<noteq> []" and "\<forall>p \<in> set points. 0 \<le> val p"
    and "\<forall>x \<in> set (idwRounded fl conv qlat qlon 0 0 points). \<bar>fl x - x\<bar> \<le> u * \<bar>x\<bar>"
  shows "Min (val ` set points) * ((1 - u) ^ (2 * length points + 1) / (1 + u) ^ length points)
           \<le> computeIDW_fl fl conv qlat qlon points \<and>
         computeIDW_fl fl conv qlat qlon points
           \<le> Max (val ` set points) * ((1 + u) ^ (2 * length points + 1) / (1 - u) ^ length points)"
proof -
  let ?lo = "Min (val ` set points)" and ?hi = "Max (val ` set points)"
  have lo: "0 \<le> ?lo" using assms(3,4) by simp
  from assms(3) obtain p where p: "p \<in> set points" by (cases points) auto
  have "?lo \<le> val p" "val p \<le> ?hi" using p by simp_all
  then have lh: "?lo \<le> ?hi" by linarith
  have bnd: "\<forall>p \<in> set points. ?lo \<le> val p \<and> val p \<le> ?hi" by simp
  have "?lo * ((1 - u) * 1 * (1 - u) ^ (2 * length points) / (1 * (1 + u) ^ length points))
           \<le> idwLoop_fl fl conv qlat qlon 0 0 points \<and>
        idwLoop_fl fl conv qlat qlon 0 0 points
           \<le> ?hi * ((1 + u) * 1 * (1 + u) ^ (2 * length points) / (1 * (1 - u) ^ length points))"
    by (rule idwLoop_fl_bounds [OF assms(1,2) lo lh bnd, where W = 0])
       (use assms(3,5) in simp_all)
  then show ?thesis by (simp add: computeIDW_fl_def)
qed

theorem computeIDW_fl_bounds_witness:
  "Min (val ` set [\<lparr>lat = 1, lon = 0, val = 3\<rparr>, \<lparr>lat = 0, lon = 1, val = 3\<rparr>,
      \<lparr>lat = 7, lon = 7, val = 3::real\<rparr>])
     * ((1 - 1 / 2 ^ 53) ^ (2 * length [\<lparr>lat = 1, lon = 0, val = 3\<rparr>, \<lparr>lat = 0, lon = 1, val = 3\<rparr>,
      \<lparr>lat = 7, lon = 7, val = 3::real\<rparr>] + 1)
        / (1 + 1 / 2 ^ 53) ^ length [\<lparr>lat = 1, lon = 0, val = 3\<rparr>, \<lparr>lat = 0, lon = 1, val = 3\<rparr>,
      \<lparr>lat = 7, lon = 7, val = 3::real\<rparr>])
     \<le> computeIDW_fl roundDouble
          \<lparr>metersPerDegLat = 111320, metersPerDegLon = 85390, feetToMeters = 0.3048\<rparr> 0 0
          [\<lparr>lat = 1, lon = 0, val = 3\<rparr>, \<lparr>lat = 0, lon = 1, val = 3\<rparr>,
      \<lparr>lat = 7, lon = 7, val = 3::real\<rparr>] \<and>
   computeIDW_fl roundDouble
     \<lparr>metersPerDegLat = 111320, metersPerDegLon = 85390, feetToMeters = 0.3048\<rparr> 0 0
     [\<lparr>lat = 1, lon = 0, val = 3\<rparr>, \<lparr>lat = 0, lon = 1, val = 3\<rparr>,
      \<lparr>lat = 7, lon = 7, val = 3::real\<rparr>]
     \<le> Max (val ` set [\<lparr>lat = 1, lon = 0, val = 3\<rparr>, \<lparr>lat = 0, lon = 1, val = 3\<rparr>,
      \<lparr>lat = 7, lon = 7, val = 3::real\<rparr>])
        * ((1 + 1 / 2 ^ 53) ^ (2 * length [\<lparr>lat = 1, lon = 0, val = 3\<rparr>, \<lparr>lat = 0, lon = 1, val = 3\<rparr>,
      \<lparr>lat = 7, lon = 7, val = 3::real\<rparr>] + 1)
           / (1 - 1 / 2 ^ 53) ^ length [\<lparr>lat = 1, lon = 0, val = 3\<rparr>, \<lparr>lat = 0, lon = 1, val = 3\<rparr>,
      \<lparr>lat = 7, lon = 7, val = 3::real\<rparr>])"
proof -
  let ?ps = "[\<lparr>lat = 1, lon = 0, val = 3\<rparr>, \<lparr>lat = 0, lon = 1, val = 3\<rparr>, \<lparr>lat = 7, lon = 7, val = 3::real\<rparr>]"
  let ?conv = "\<lparr>metersPerDegLat = 111320, metersPerDegLon = 85390, feetToMeters = 0.3048\<rparr>"
  have u: "(0::real) \<le> 1 / 2 ^ 53" "(1::real) / 2 ^ 53 < 1" by simp_all
  have ne: "?ps \<noteq> []" by simp
  have nn: "\<forall>p \<in> set ?ps. 0 \<le> val p" by simp
  have R: "\<forall>x \<in> set (idwRounded roundDouble ?conv 0 0 0 0 ?ps).
             \<bar>roundDouble x - x\<bar> \<le> 1 / 2 ^ 53 * \<bar>x\<bar>"
    using roundDouble_error by simp
  show ?thesis by (rule computeIDW_fl_bounds [OF u ne nn R])
qed

section \<open>Column layout: clamping and spacing\<close>

lemma relaxPass_unchanged:
  "\<not> snd (relaxPass minGap ps) \<Longrightarrow> fst (relaxPass minGap ps) = ps \<and> spaced minGap ps"
  by (induction minGap ps rule: relaxPass.induct)
     (auto simp: Let_def split: if_splits prod.splits)

lemma clampToPlot_within:
  "plotLeft + COLUMN_WIDTH_PX \<le> plotRight \<Longrightarrow> withinPlot plotLeft plotRight (clampToPlot plotLeft plotRight p)"
  by (auto simp: clampToPlot_def withinPlot_def Let_def COLUMN_WIDTH_PX_def)

lemma clampToPlot_id:
  "withinPlot plotLeft plotRight p \<Longrightarrow> clampToPlot plotLeft plotRight p = p"
  by (auto simp: clampToPlot_def withinPlot_def Let_def)

lemma relaxLoop_two:
  assumes "pos_x p \<le> pos_x q"
  shows "\<not> snd (relaxPass minGap (relaxLoop 0 minGap [p, q]))"
proof (cases "pos_x q - pos_x p < minGap")
  case True
  then show ?thesis
    by (subst relaxLoop.simps, subst relaxLoop.simps) (simp add: Let_def field_simps)
next
  case False
  then show ?thesis
    by (subst relaxLoop.simps) (simp add: Let_def)
qed

lemma sort_by_two:
  "length ps = 2 \<Longrightarrow> \<exists>p q. sort_by cmpX ps = [p, q] \<and> pos_x p \<le> pos_x q"
proof -
  assume "length ps = 2"
  then obtain u v where ps: "ps = [u, v]"
    by (metis One_nat_def Suc_1 length_0_conv length_Suc_conv)
  show ?thesis by (cases "pos_x u \<le> pos_x v") (auto simp: ps sort_by_def cmpX_def)
qed

text \<open>
  Claim C9, as stated: the returned columns are pairwise separated by the minimum gap
  and clamped into the plot. Three coinciding columns are still closer than the gap
  after the five passes; two columns near the left edge are pushed apart and then
  clamped onto each other; a single column outside the plot is returned as it is.
\<close>

theorem resolveOverlaps_spacing_counterexample:
  "\<not> spaced 26 (resolveOverlaps
       [\<lparr>pos_id = ''A'', pos_x = 400\<rparr>, \<lparr>pos_id = ''B'', pos_x = 400\<rparr>, \<lparr>pos_id = ''C'', pos_x = 400\<rparr>]
       26 75 910) \<and>
   \<not> spaced 26 (resolveOverlaps
       [\<lparr>pos_id = ''A'', pos_x = 80\<rparr>, \<lparr>pos_id = ''B'', pos_x = 80\<rparr>] 26 75 910) \<and>
   \<not> withinPlot 75 910 (hd (resolveOverlaps [\<lparr>pos_id = ''A'', pos_x = 0\<rparr>] 26 75 910))"
  by (simp add: resolveOverlaps_def sort_by_def cmpX_def Let_def clampToPlot_def
      COLUMN_WIDTH_PX_def withinPlot_def relaxLoop.simps)

text \<open>
  Claim C9, amended. For at least two columns and plot bounds at least one column wide,
  every returned column lies within the plot bounds. The returned columns are separated
  by at least the minimum gap when the relaxation, which runs at most five passes, has
  reached positions that a further pass would not change and that need no clamping; for
  exactly two columns the relaxation always ends at positions that a further pass would
  not change.
\<close>

theorem resolveOverlaps_clamped_spaced_when_settled:
  assumes "2 \<le> length positions" and "plotLeft + COLUMN_WIDTH_PX \<le> plotRight"
  shows "(\<forall>p \<in> set (resolveOverlaps positions minGap plotLeft plotRight).
            withinPlot plotLeft plotRight p) \<and>
         (\<not> snd (relaxPass minGap (relaxLoop 0 minGap (sort_by cmpX positions))) \<and>
          (\<forall>p \<in> set (relaxLoop 0 minGap (sort_by cmpX positions)).
             withinPlot plotLeft plotRight p) \<longrightarrow>
            spaced minGap (resolveOverlaps positions minGap plotLeft plotRight)) \<and>
         (length positions = 2 \<longrightarrow>
            \<not> snd (relaxPass minGap (relaxLoop 0 minGap (sort_by cmpX positions))))"
proof (intro conjI impI)
  from assms show "\<forall>p \<in> set (resolveOverlaps positions minGap plotLeft plotRight).
            withinPlot plotLeft plotRight p"
    by (auto simp: resolveOverlaps_def clampToPlot_within)
next
  assume h: "\<not> snd (relaxPass minGap (relaxLoop 0 minGap (sort_by cmpX positions))) \<and>
          (\<forall>p \<in> set (relaxLoop 0 minGap (sort_by cmpX positions)).
             withinPlot plotLeft plotRight p)"
  then have "map (clampToPlot plotLeft plotRight) (relaxLoop 0 minGap (sort_by cmpX positions))
      = relaxLoop 0 minGap (sort_by cmpX positions)"
    by (simp add: clampToPlot_id map_idI)
  moreover have "spaced minGap (relaxLoop 0 minGap (sort_by cmpX positions))"
    using h relaxPass_unchanged by blast
  ultimately show "spaced minGap (resolveOverlaps positions minGap plotLeft plotRight)"
    using assms(1) by (simp add: resolveOverlaps_def)
next
  assume "length positions = 2"
  then obtain p q where "sort_by cmpX positions = [p, q]" "pos_x p \<le> pos_x q"
    using sort_by_two by blast
  then show "\<not> snd (relaxPass minGap (relaxLoop 0 minGap (sort_by cmpX positions)))"
    using relaxLoop_two by simp
qed

theorem resolveOverlaps_clamped_spaced_when_settled_witness:
  "map pos_x (resolveOverlaps [\<lparr>pos_id = ''A'', pos_x = 410\<rparr>, \<lparr>pos_id = ''B'', pos_x = 400\<rparr>] 26 75 910)
     = [392, 418] \<and>
   spaced 26 (resolveOverlaps [\<lparr>pos_id = ''A'', pos_x = 410\<rparr>, \<lparr>pos_id = ''B'', pos_x = 400\<rparr>] 26 75 910) \<and>
   withinPlot 75 910
     (hd (resolveOverlaps [\<lparr>pos_id = ''A'', pos_x = 410\<rparr>, \<lparr>pos_id = ''B'', pos_x = 400\<rparr>] 26 75 910))"
proof -
  have 1: "2 \<le> length [\<lparr>pos_id = ''A'', pos_x = 410\<rparr>, \<lparr>pos_id = ''B'', pos_x = 400\<rparr>]" by simp
  have 2: "(75::real) + COLUMN_WIDTH_PX \<le> 910" by (simp add: COLUMN_WIDTH_PX_def)
  have 3: "\<forall>p \<in> set (relaxLoop 0 26 (sort_by cmpX
      [\<lparr>pos_id = ''A'', pos_x = 410\<rparr>, \<lparr>pos_id = ''B'', pos_x = 400\<rparr>])). withinPlot 75 910 p"
    by (simp add: sort_by_def cmpX_def Let_def withinPlot_def COLUMN_WIDTH_PX_def relaxLoop.simps)
  have 4: "map pos_x (resolveOverlaps
      [\<lparr>pos_id = ''A'', pos_x = 410\<rparr>, \<lparr>pos_id = ''B'', pos_x = 400\<rparr>] 26 75 910) = [392, 418]"
    by (simp add: resolveOverlaps_def sort_by_def cmpX_def Let_def clampToPlot_def
        COLUMN_WIDTH_PX_def relaxLoop.simps)
  from resolveOverlaps_clamped_spaced_when_settled [OF 1 2, of 26] 3 4
  show ?thesis by (cases "resolveOverlaps
      [\<lparr>pos_id = ''A'', pos_x = 410\<rparr>, \<lparr>pos_id = ''B'', pos_x = 400\<rparr>] 26 75 910") auto
qed

section \<open>Gap grid: covering the padded bounding box\<close>

text \<open>With a positive step the loop ends, after as many iterations as steps fit below the
  bound, at the values \<open>v + i * step\<close>.\<close>

lemma forLoop_Some:
  assumes "0 < step"
  shows "forLoop v stop step (\<lambda>u. Some (f u)) =
           Some (concat (map (\<lambda>i. f (v + real i * step)) [0..<nat \<lceil>(stop - v) / step\<rceil>]))"
proof (induction "nat \<lceil>(stop - v) / step\<rceil>" arbitrary: v)
  case 0
  then have "(stop - v) / step \<le> 0" by simp
  with assms have "\<not> v < stop" by (simp add: divide_le_0_iff)
  with 0 show ?case by (subst forLoop.simps) simp
next
  case (Suc n)
  from Suc.hyps(2) have pos: "0 < (stop - v) / step"
  proof -
    from Suc.hyps(2) have "0 < \<lceil>(stop - v) / step\<rceil>" by linarith
    then show ?thesis by (simp add: zero_less_ceiling)
  qed
  with assms have lt: "v < stop" by (simp add: zero_less_divide_iff)
  have "(stop - (v + step)) / step = (stop - v) / step - 1"
    using assms by (simp add: field_simps)
  then have "nat \<lceil>(stop - (v + step)) / step\<rceil> = n"
    using Suc.hyps(2) by simp
  then have IH: "forLoop (v + step) stop step (\<lambda>u. Some (f u)) =
      Some (concat (map (\<lambda>i. f (v + step + real i * step)) [0..<n]))"
    using Suc.hyps(1) [of "v + step"] by simp
  have m: "map (\<lambda>i. f (v + real i * step)) [0..<Suc n] =
      f v # map (\<lambda>i. f (v + step + real i * step)) [0..<n]"
    by (simp add: map_upt_Suc algebra_simps del: upt_Suc)
  have "forLoop v stop step (\<lambda>u. Some (f u)) =
      Some (f v @ concat (map (\<lambda>i. f (v + step + real i * step)) [0..<n]))"
    using lt IH by (subst forLoop.simps) simp
  also have "\<dots> = Some (concat (map (\<lambda>i. f (v + real i * step)) [0..<Suc n]))"
    unfolding m by simp
  finally show ?case unfolding Suc.hyps(2) .
qed

text \<open>The steps cover the interval, and the cells of a grid do not overlap.\<close>

lemma interval_cover:
  assumes gp: "0 < (w::real)" and ay: "a \<le> y" and yh: "y \<le> hi" and ah: "a < hi"
  shows "\<exists>i < nat \<lceil>(hi - a) / w\<rceil>. a + real i * w \<le> y \<and> y \<le> a + real i * w + w"
proof (cases "y = a")
  case True
  from ah gp have "0 < (hi - a) / w" by simp
  then have "0 < nat \<lceil>(hi - a) / w\<rceil>" by (simp add: zero_less_ceiling)
  with True gp show ?thesis by (intro exI [of _ 0]) simp
next
  case False
  define t where "t = (y - a) / w"
  from False ay gp have tpos: "0 < t" by (simp add: t_def)
  then have c1: "1 \<le> \<lceil>t\<rceil>" by (simp add: zero_less_ceiling add1_zle_eq [symmetric])
  define i where "i = nat (\<lceil>t\<rceil> - 1)"
  from c1 have ri: "real i = of_int \<lceil>t\<rceil> - 1" by (simp add: i_def)
  have "t \<le> (hi - a) / w" using yh gp by (simp add: t_def divide_right_mono)
  then have "\<lceil>t\<rceil> \<le> \<lceil>(hi - a) / w\<rceil>" by (rule ceiling_mono)
  with c1 have "i < nat \<lceil>(hi - a) / w\<rceil>" unfolding i_def by linarith
  moreover have "real i < t" using ri ceiling_correct [of t] by linarith
  then have "real i * w < y - a" using gp by (simp add: t_def pos_less_divide_eq)
  moreover have "t \<le> real i + 1" using ri ceiling_correct [of t] by linarith
  then have "y - a \<le> (real i + 1) * w" using gp by (simp add: t_def pos_divide_le_eq)
  ultimately show ?thesis by (intro exI [of _ i]) (simp add: algebra_simps)
qed

lemma sorted_wrt_concat_map:
  assumes "\<And>i. i \<in> set ks \<Longrightarrow> sorted_wrt R (F i)"
    and "sorted_wrt (\<lambda>i j. \<forall>u \<in> set (F i). \<forall>w \<in> set (F j). R u w) ks"
  shows "sorted_wrt R (concat (map F ks))"
  using assms by (induction ks) (auto simp: sorted_wrt_append)

lemma grid_set:
  "set (concat (map (\<lambda>i. concat (map (\<lambda>j. [c (a + real i * gl) (e + real j * gn)]) [0..<m])) [0..<n]))
     = {c (a + real i * gl) (e + real j * gn) | i j. i < n \<and> j < m}"
  by auto blast

lemma grid_no_overlap:
  assumes gl: "0 < gl" and gn: "0 < gn"
    and c: "\<And>u w. latMin (c u w) = u \<and> lonMin (c u w) = w \<and>
                   latMax (c u w) = u + gl \<and> lonMax (c u w) = w + gn"
  shows "sorted_wrt (\<lambda>p q. \<not> overlapArea p q)
           (concat (map (\<lambda>i. concat (map (\<lambda>j. [c (a + real i * gl) (e + real j * gn)]) [0..<m])) [0..<n]))"
proof (rule sorted_wrt_concat_map)
  fix i
  have "sorted_wrt (\<lambda>j k. \<not> overlapArea (c (a + real i * gl) (e + real j * gn))
                                       (c (a + real i * gl) (e + real k * gn))) [0..<m]"
  proof (rule sorted_wrt_mono_rel [OF _ sorted_wrt_upt])
    fix j k :: nat
    assume "j < k"
    then have "real j + 1 \<le> real k" by simp
    then have "(real j + 1) * gn \<le> real k * gn" using gn by (simp only: mult_right_mono less_imp_le)
    then show "\<not> overlapArea (c (a + real i * gl) (e + real j * gn))
                            (c (a + real i * gl) (e + real k * gn))"
      by (simp add: overlapArea_def c algebra_simps)
  qed
  then show "sorted_wrt (\<lambda>p q. \<not> overlapArea p q)
         (concat (map (\<lambda>j. [c (a + real i * gl) (e + real j * gn)]) [0..<m]))"
    by (simp add: sorted_wrt_map concat_map_singleton)
next
  show "sorted_wrt (\<lambda>i k. \<forall>u \<in> set (concat (map (\<lambda>j. [c (a + real i * gl) (e + real j * gn)]) [0..<m])).
                         \<forall>w \<in> set (concat (map (\<lambda>j. [c (a + real k * gl) (e + real j * gn)]) [0..<m])).
                           \<not> overlapArea u w) [0..<n]"
  proof (rule sorted_wrt_mono_rel [OF _ sorted_wrt_upt])
    fix i k :: nat
    assume "i < k"
    then have "real i + 1 \<le> real k" by simp
    then have "(real i + 1) * gl \<le> real k * gl" using gl by (simp only: mult_right_mono less_imp_le)
    then show "\<forall>u \<in> set (concat (map (\<lambda>j. [c (a + real i * gl) (e + real j * gn)]) [0..<m])).
               \<forall>w \<in> set (concat (map (\<lambda>j. [c (a + real k * gl) (e + real j * gn)]) [0..<m])).
                 \<not> overlapArea u w"
      by (auto simp: overlapArea_def c algebra_simps)
  qed
qed

lemma Math_min_le_Math_max: "vs \<noteq> [] \<Longrightarrow> Math_min vs \<le> Math_max vs"
proof (cases vs)
  case Nil
  assume "vs \<noteq> []"
  with Nil show ?thesis by simp
next
  case (Cons v ws)
  have "Math_min vs = Min (set vs)" "Math_max vs = Max (set vs)"
    using Min.set_eq_fold [of v ws] Max.set_eq_fold [of v ws] by (simp_all add: Cons)
  moreover have "Min (set vs) \<le> v" "v \<le> Max (set vs)"
    by (simp_all add: Cons)
  ultimately show ?thesis by linarith
qed

lemma gapCell_fields:
  "latMin (gapCell d ds gl gn rad u w) = u \<and> lonMin (gapCell d ds gl gn rad u w) = w \<and>
   latMax (gapCell d ds gl gn rad u w) = u + gl \<and> lonMax (gapCell d ds gl gn rad u w) = w + gn"
  by (simp add: gapCell_def Let_def split: prod.splits)

lemma createGapGrid_grid:
  assumes "gapBaseSamples st \<noteq> []" and "0 < gridSizeFt st" and "0 < feetToMeters conv"
    and "0 < metersPerDegLat conv" and "0 < metersPerDegLon conv"
  shows "createGapGrid conv distanceTo st =
     Some (concat (map (\<lambda>i. concat (map (\<lambda>j.
        [gapCell distanceTo (gapDensitySamples st)
           (gridSizeFt st * feetToMeters conv / metersPerDegLat conv)
           (gridSizeFt st * feetToMeters conv / metersPerDegLon conv)
           (gridSizeFt st * feetToMeters conv)
           (Math_min (map lat (gapBaseSamples st)) - 0.0005
              + real i * (gridSizeFt st * feetToMeters conv / metersPerDegLat conv))
           (Math_min (map lon (gapBaseSamples st)) - 0.0005
              + real j * (gridSizeFt st * feetToMeters conv / metersPerDegLon conv))])
        [0..<nat \<lceil>(Math_max (map lon (gapBaseSamples st)) + 0.0005
                    - (Math_min (map lon (gapBaseSamples st)) - 0.0005))
                   / (gridSizeFt st * feetToMeters conv / metersPerDegLon conv)\<rceil>]))
        [0..<nat \<lceil>(Math_max (map lat (gapBaseSamples st)) + 0.0005
                    - (Math_min (map lat (gapBaseSamples st)) - 0.0005))
                   / (gridSizeFt st * feetToMeters conv / metersPerDegLat conv)\<rceil>]))"
proof -
  have gl: "0 < gridSizeFt st * feetToMeters conv / metersPerDegLat conv"
    and gn: "0 < gridSizeFt st * feetToMeters conv / metersPerDegLon conv"
    using assms by simp_all
  show ?thesis
    using assms(1)
    by (simp only: createGapGrid_def Let_def forLoop_Some [OF gn] forLoop_Some [OF gl] if_False)
qed

text \<open>
  Claim C2, as stated: the union of the cells equals the padded bounding box. With one
  sample and a 400 ft grid the single cell reaches beyond the northern edge of the box.
\<close>

theorem createGapGrid_tiling_counterexample:
  "createGapGrid \<lparr>metersPerDegLat = 111320, metersPerDegLon = 85390, feetToMeters = 0.3048\<rparr>
     (\<lambda>p q. 111320 * \<bar>lat p - lat q\<bar> + 85390 * \<bar>lon p - lon q\<bar>)
     \<lparr>samples2025 = [],
      eaSamples = [\<lparr>lat = 0, lon = 0, mercury = Some 250, arsenic = None, antimony = None,
                    thallium = None\<rparr>],
      plannedPoints = [], includePlannedInGaps = False, gridSizeFt = 400,
      currentAnalyte = ''Mercury''\<rparr>
   = Some [\<lparr>latMin = - 0.0005, lonMin = - 0.0005,
            latMax = - 0.0005 + 400 * 0.3048 / 111320, lonMax = - 0.0005 + 400 * 0.3048 / 85390,
            color = ''#ffff00'', fillOpacity = 0.3\<rparr>] \<and>
   inCell \<lparr>latMin = - 0.0005, lonMin = - 0.0005,
            latMax = - 0.0005 + 400 * 0.3048 / 111320, lonMax = - 0.0005 + 400 * 0.3048 / 85390,
            color = ''#ffff00'', fillOpacity = 0.3\<rparr> 0.00055 0 \<and>
   \<not> inPaddedBox (gapBaseSamples
      \<lparr>samples2025 = [],
      eaSamples = [\<lparr>lat = 0, lon = 0, mercury = Some 250, arsenic = None, antimony = None,
                    thallium = None\<rparr>],
      plannedPoints = [], includePlannedInGaps = False, gridSizeFt = 400,
      currentAnalyte = ''Mercury''\<rparr>) 0.00055 0"
  by (simp add: createGapGrid_def gapBaseSamples_def gapDensitySamples_def Let_def
      forLoop.simps gapCell_def inCell_def inPaddedBox_def)

text \<open>
  Claim C2, amended. For a non-empty list of base samples, a positive grid size and
  positive conversion constants, \<open>createGapGrid\<close> returns, its cells cover the padded
  bounding box (every point of the box lies in a cell), no two cells overlap in area,
  and every cell has its south-west corner in the box and the size of one grid step, so
  the cells reach beyond the northern and eastern edges by less than one cell.
\<close>

theorem createGapGrid_covers_without_overlap:
  assumes "gapBaseSamples st \<noteq> []" and "0 < gridSizeFt st" and "0 < feetToMeters conv"
    and "0 < metersPerDegLat conv" and "0 < metersPerDegLon conv"
  shows "\<exists>cells. createGapGrid conv distanceTo st = Some cells \<and>
           (\<forall>y x. inPaddedBox (gapBaseSamples st) y x \<longrightarrow> (\<exists>c \<in> set cells. inCell c y x)) \<and>
           sorted_wrt (\<lambda>c d. \<not> overlapArea c d) cells \<and>
           (\<forall>c \<in> set cells.
              Math_min (map lat (gapBaseSamples st)) - 0.0005 \<le> latMin c \<and>
              latMin c < Math_max (map lat (gapBaseSamples st)) + 0.0005 \<and>
              latMax c = latMin c + gridSizeFt st * feetToMeters conv / metersPerDegLat conv \<and>
              Math_min (map lon (gapBaseSamples st)) - 0.0005 \<le> lonMin c \<and>
              lonMin c < Math_max (map lon (gapBaseSamples st)) + 0.0005 \<and>
              lonMax c = lonMin c + gridSizeFt st * feetToMeters conv / metersPerDegLon conv)"
proof -
  define gl where "gl = gridSizeFt st * feetToMeters conv / metersPerDegLat conv"
  define gn where "gn = gridSizeFt st * feetToMeters conv / metersPerDegLon conv"
  define a where "a = Math_min (map lat (gapBaseSamples st)) - 0.0005"
  define ah where "ah = Math_max (map lat (gapBaseSamples st)) + 0.0005"
  define e where "e = Math_min (map lon (gapBaseSamples st)) - 0.0005"
  define eh where "eh = Math_max (map lon (gapBaseSamples st)) + 0.0005"
  define c where "c = gapCell distanceTo (gapDensitySamples st) gl gn (gridSizeFt st * feetToMeters conv)"
  define n where "n = nat \<lceil>(ah - a) / gl\<rceil>"
  define m where "m = nat \<lceil>(eh - e) / gn\<rceil>"
  define cells where
    "cells = concat (map (\<lambda>i. concat (map (\<lambda>j. [c (a + real i * gl) (e + real j * gn)]) [0..<m])) [0..<n])"
  have gl: "0 < gl" and gn: "0 < gn" using assms by (simp_all add: gl_def gn_def)
  have aah: "a < ah"
    using Math_min_le_Math_max [of "map lat (gapBaseSamples st)"] assms(1)
    by (simp add: a_def ah_def)
  have eeh: "e < eh"
    using Math_min_le_Math_max [of "map lon (gapBaseSamples st)"] assms(1)
    by (simp add: e_def eh_def)
  have cf: "\<And>u w. latMin (c u w) = u \<and> lonMin (c u w) = w \<and>
                   latMax (c u w) = u + gl \<and> lonMax (c u w) = w + gn"
    unfolding c_def by (rule gapCell_fields)
  have set_cells: "set cells = {c (a + real i * gl) (e + real j * gn) | i j. i < n \<and> j < m}"
    unfolding cells_def by (rule grid_set)
  have 1: "createGapGrid conv distanceTo st = Some cells"
    unfolding cells_def c_def n_def m_def a_def ah_def e_def eh_def gl_def gn_def
    by (rule createGapGrid_grid [OF assms])
  have 2: "\<exists>d \<in> set cells. inCell d y x" if "inPaddedBox (gapBaseSamples st) y x" for y x
  proof -
    from that have y: "a \<le> y" "y \<le> ah" and x: "e \<le> x" "x \<le> eh"
      by (simp_all add: inPaddedBox_def a_def ah_def e_def eh_def)
    from interval_cover [OF gl y aah] obtain i
      where i: "i < n" "a + real i * gl \<le> y" "y \<le> a + real i * gl + gl"
      unfolding n_def by blast
    from interval_cover [OF gn x eeh] obtain j
      where j: "j < m" "e + real j * gn \<le> x" "x \<le> e + real j * gn + gn"
      unfolding m_def by blast
    have "c (a + real i * gl) (e + real j * gn) \<in> set cells"
      unfolding set_cells using i(1) j(1) by blast
    moreover have "inCell (c (a + real i * gl) (e + real j * gn)) y x"
      using i j by (simp add: inCell_def cf)
    ultimately show ?thesis by blast
  qed
  have 3: "sorted_wrt (\<lambda>p q. \<not> overlapArea p q) cells"
    unfolding cells_def by (rule grid_no_overlap [OF gl gn cf])
  have 4: "a \<le> latMin d \<and> latMin d < ah \<and> latMax d = latMin d + gl \<and>
           e \<le> lonMin d \<and> lonMin d < eh \<and> lonMax d = lonMin d + gn" if "d \<in> set cells" for d
  proof -
    from that obtain i j where d: "d = c (a + real i * gl) (e + real j * gn)" and ij: "i < n" "j < m"
      unfolding set_cells by blast
    have lt: "real k * w < hi - lo" if "k < nat \<lceil>(hi - lo) / w\<rceil>" "0 < w" for k :: nat and w hi lo :: real
    proof -
      from that(1) have "int k < \<lceil>(hi - lo) / w\<rceil>" by linarith
      then have "real k < (hi - lo) / w" by (simp add: less_ceiling_iff)
      then show ?thesis using that(2) by (simp add: pos_less_divide_eq)
    qed
    have "real i * gl < ah - a" using lt [OF _ gl] ij(1) unfolding n_def by blast
    moreover have "real j * gn < eh - e" using lt [OF _ gn] ij(2) unfolding m_def by blast
    moreover have "0 \<le> real i * gl" "0 \<le> real j * gn" using gl gn by simp_all
    ultimately show ?thesis by (simp add: d cf)
  qed
  show ?thesis
    using 1 2 3 4 unfolding a_def ah_def e_def eh_def gl_def gn_def by blast
qed

theorem createGapGrid_covers_without_overlap_witness:
  "\<exists>cells.
     createGapGrid \<lparr>metersPerDegLat = 111320, metersPerDegLon = 85390, feetToMeters = 0.3048\<rparr>
       (\<lambda>p q. 111320 * \<bar>lat p - lat q\<bar> + 85390 * \<bar>lon p - lon q\<bar>)
       \<lparr>samples2025 = [],
        eaSamples = [\<lparr>lat = 0, lon = 0, mercury = Some 250, arsenic = None, antimony = None,
                      thallium = None\<rparr>],
        plannedPoints = [], includePlannedInGaps = False, gridSizeFt = 100,
        currentAnalyte = ''Mercury''\<rparr> = Some cells \<and>
     sorted_wrt (\<lambda>c d. \<not> overlapArea c d) cells \<and>
     (\<exists>c \<in> set cells. inCell c 0 0)"
proof -
  let ?conv = "\<lparr>metersPerDegLat = 111320, metersPerDegLon = 85390, feetToMeters = 0.3048\<rparr>"
  let ?st = "\<lparr>samples2025 = [],
        eaSamples = [\<lparr>lat = 0, lon = 0, mercury = Some 250, arsenic = None, antimony = None,
                      thallium = None\<rparr>],
        plannedPoints = [], includePlannedInGaps = False, gridSizeFt = 100,
        currentAnalyte = ''Mercury''\<rparr>"
  have 1: "gapBaseSamples ?st \<noteq> []" by (simp add: gapBaseSamples_def)
  have 2: "0 < gridSizeFt ?st" by simp
  have 3: "0 < feetToMeters ?conv" "0 < metersPerDegLat ?conv" "0 < metersPerDegLon ?conv"
    by simp_all
  have 4: "inPaddedBox (gapBaseSamples ?st) 0 0"
    by (simp add: inPaddedBox_def gapBaseSamples_def)
  from createGapGrid_covers_without_overlap [OF 1 2 3,
      of "\<lambda>p q. 111320 * \<bar>lat p - lat q\<bar> + 85390 * \<bar>lon p - lon q\<bar>"] 4
  show ?thesis by blast
qed

section \<open>Hot-zone grid: the aggregate and the class of a cell\<close>

lemma hotZoneScan_foldl:
  "foldl (hotZoneScanStep d c rad) (m, f) xs =
     (fold max (map val (withinRadius d c rad xs)) m, f \<or> withinRadius d c rad xs \<noteq> [])"
  by (induction xs arbitrary: m f)
     (auto simp: hotZoneScanStep_def withinRadius_def max_def)

lemma hotZoneScan_eq:
  "hotZoneScan d c rad xs =
     (Max (insert 0 (val ` set (withinRadius d c rad xs))), withinRadius d c rad xs \<noteq> [])"
  unfolding hotZoneScan_def hotZoneScan_foldl
  using Max.set_eq_fold [of 0 "map val (withinRadius d c rad xs)"] by simp

text \<open>The running maximum starts at 0; for values that are not negative it ends at the
  maximum of the values in range.\<close>

lemma hotZoneScan_max:
  assumes "\<forall>s \<in> set samples. 0 \<le> val s" and "withinRadius d c rad samples \<noteq> []"
  shows "fst (hotZoneScan d c rad samples) = Max (val ` set (withinRadius d c rad samples))"
proof -
  let ?in = "withinRadius d c rad samples"
  from assms(2) obtain s where s: "s \<in> set ?in" by (cases ?in) auto
  then have "s \<in> set samples" by (simp add: withinRadius_def)
  with assms(1) have "0 \<le> val s" by simp
  moreover have "val s \<le> Max (val ` set ?in)" using s by simp
  ultimately have "0 \<le> Max (val ` set ?in)" by linarith
  then have "Max (insert 0 (val ` set ?in)) = Max (val ` set ?in)"
    using assms(2) by (simp add: max_def)
  then show ?thesis by (simp add: hotZoneScan_eq)
qed

lemma hotZoneCell_eq_spec_values:
  assumes "\<forall>s \<in> set samples. 0 \<le> val s"
  shows "hotZoneCell distanceTo th samples gl gn rad clat clon
           = hotZoneCellSpec distanceTo th samples gl gn rad clat clon"
proof (cases "withinRadius distanceTo \<lparr>lat = clat + gl / 2, lon = clon + gn / 2\<rparr> rad samples = []")
  case True
  then show ?thesis
    by (simp add: hotZoneCell_def hotZoneCellSpec_def Let_def hotZoneScan_eq)
next
  case False
  from hotZoneScan_max [OF assms False] False show ?thesis
    by (simp add: hotZoneCell_def hotZoneCellSpec_def Let_def hotZoneScan_eq hotZoneClass_def
        split: prod.splits)
qed

text \<open>With thresholds that are not negative the rectangle of a cell is that of the
  specification for all values: a maximum below 0 and the running maximum 0 are both
  green.\<close>

lemma hotZoneCell_eq_spec_thresholds:
  assumes "0 \<le> low th" and "0 \<le> high th"
  shows "hotZoneCell distanceTo th samples gl gn rad clat clon
           = hotZoneCellSpec distanceTo th samples gl gn rad clat clon"
proof (cases "withinRadius distanceTo \<lparr>lat = clat + gl / 2, lon = clon + gn / 2\<rparr> rad samples = []")
  case True
  then show ?thesis
    by (simp add: hotZoneCell_def hotZoneCellSpec_def Let_def hotZoneScan_eq)
next
  case False
  let ?in = "withinRadius distanceTo \<lparr>lat = clat + gl / 2, lon = clon + gn / 2\<rparr> rad samples"
  have "Max (insert 0 (val ` set ?in)) = max 0 (Max (val ` set ?in))"
    using False by simp
  with False assms show ?thesis
    by (auto simp: hotZoneCell_def hotZoneCellSpec_def Let_def hotZoneScan_eq hotZoneClass_def
        max_def split: prod.splits)
qed

lemma hotZoneCell_eq_spec:
  assumes "(\<forall>s \<in> set samples. 0 \<le> val s) \<or> (0 \<le> low th \<and> 0 \<le> high th)"
  shows "hotZoneCell distanceTo th samples gl gn rad clat clon
           = hotZoneCellSpec distanceTo th samples gl gn rad clat clon"
  using assms hotZoneCell_eq_spec_values hotZoneCell_eq_spec_thresholds by blast

lemma createHotZoneGrid_eq_spec:
  assumes "(\<forall>s \<in> set (hotZoneSamples st). 0 \<le> val s) \<or> (0 \<le> low th \<and> 0 \<le> high th)"
  shows "createHotZoneGrid conv distanceTo th st = hotZoneGridSpec conv distanceTo th st"
  by (simp add: createHotZoneGrid_def hotZoneGridSpec_def Let_def hotZoneCell_eq_spec [OF assms])

lemma set_map_filter_Some:
  "set (List.map_filter f xs) = {y. \<exists>x \<in> set xs. f x = Some y}"
  by (induction xs) (auto simp: List.map_filter_simps split: option.splits)

text \<open>The collected samples: the sampled 2025 samples and the EA samples that have a
  value for the current analyte.\<close>

lemma set_hotZoneSamples:
  "set (hotZoneSamples st) =
     {\<lparr>lat = lat x, lon = lon x, val = v\<rparr> | x v.
        x \<in> set (samples2025 st) \<and> sampled x \<and> getSampleValue2025 x (currentAnalyte st) = Some v} \<union>
     {\<lparr>lat = lat e, lon = lon e, val = v\<rparr> | e v.
        e \<in> set (eaSamples st) \<and> getSampleValueEA e (currentAnalyte st) = Some v}"
  by (auto simp: hotZoneSamples_def set_map_filter_Some split: option.splits)

lemma createHotZoneGrid_returns:
  assumes "0 < gridSizeFt st" and "0 < feetToMeters conv"
    and "0 < metersPerDegLat conv" and "0 < metersPerDegLon conv"
  shows "\<exists>cells. createHotZoneGrid conv distanceTo th st = Some cells"
proof -
  have gl: "0 < gridSizeFt st * feetToMeters conv / metersPerDegLat conv"
    and gn: "0 < gridSizeFt st * feetToMeters conv / metersPerDegLon conv"
    using assms by simp_all
  show ?thesis
    by (simp add: createHotZoneGrid_def Let_def forLoop_Some [OF gn] forLoop_Some [OF gl])
qed

text \<open>
  Claim C6. In hot-zone mode, with a positive grid size and positive conversion constants
  and with analyte values or thresholds that are not negative (they are concentrations),
  \<open>createHotZoneGrid\<close> returns, and what it returns is the grid of the specification: for
  every grid cell, no rectangle if no collected sample (a sampled 2025 sample or an EA
  sample with a value for the current analyte) lies within the search radius of the cell
  centre, and otherwise a rectangle that is red if the maximum value among the samples
  within the radius is above the high threshold, orange if it is above the low threshold,
  and green otherwise. For values that are not negative the aggregate that the cell scan
  computes is that maximum.
\<close>

theorem createHotZoneGrid_max_and_class:
  assumes "0 < gridSizeFt st" and "0 < feetToMeters conv"
    and "0 < metersPerDegLat conv" and "0 < metersPerDegLon conv"
    and "(\<forall>s \<in> set (hotZoneSamples st). 0 \<le> val s) \<or> (0 \<le> low th \<and> 0 \<le> high th)"
  shows "(\<exists>cells. createHotZoneGrid conv distanceTo th st = Some cells \<and>
                  hotZoneGridSpec conv distanceTo th st = Some cells) \<and>
         (\<forall>gl gn rad clat clon.
            hotZoneCell distanceTo th (hotZoneSamples st) gl gn rad clat clon
              = hotZoneCellSpec distanceTo th (hotZoneSamples st) gl gn rad clat clon) \<and>
         ((\<forall>s \<in> set (hotZoneSamples st). 0 \<le> val s) \<longrightarrow>
          (\<forall>c rad. withinRadius distanceTo c rad (hotZoneSamples st) \<noteq> [] \<longrightarrow>
             fst (hotZoneScan distanceTo c rad (hotZoneSamples st))
               = Max (val ` set (withinRadius distanceTo c rad (hotZoneSamples st))))) \<and>
         set (hotZoneSamples st) =
           {\<lparr>lat = lat x, lon = lon x, val = v\<rparr> | x v.
              x \<in> set (samples2025 st) \<and> sampled x \<and>
              getSampleValue2025 x (currentAnalyte st) = Some v} \<union>
           {\<lparr>lat = lat e, lon = lon e, val = v\<rparr> | e v.
              e \<in> set (eaSamples st) \<and> getSampleValueEA e (currentAnalyte st) = Some v}"
proof (intro conjI allI impI)
  from createHotZoneGrid_returns [OF assms(1-4)] obtain cells
    where "createHotZoneGrid conv distanceTo th st = Some cells" by blast
  then show "\<exists>cells. createHotZoneGrid conv distanceTo th st = Some cells \<and>
                  hotZoneGridSpec conv distanceTo th st = Some cells"
    using createHotZoneGrid_eq_spec [OF assms(5), of conv distanceTo] by simp
next
  fix gl gn rad clat clon
  show "hotZoneCell distanceTo th (hotZoneSamples st) gl gn rad clat clon
          = hotZoneCellSpec distanceTo th (hotZoneSamples st) gl gn rad clat clon"
    by (rule hotZoneCell_eq_spec [OF assms(5)])
next
  fix c rad
  assume "\<forall>s \<in> set (hotZoneSamples st). 0 \<le> val s"
    and "withinRadius distanceTo c rad (hotZoneSamples st) \<noteq> []"
  then show "fst (hotZoneScan distanceTo c rad (hotZoneSamples st))
               = Max (val ` set (withinRadius distanceTo c rad (hotZoneSamples st)))"
    by (rule hotZoneScan_max)
next
  show "set (hotZoneSamples st) =
           {\<lparr>lat = lat x, lon = lon x, val = v\<rparr> | x v.
              x \<in> set (samples2025 st) \<and> sampled x \<and>
              getSampleValue2025 x (currentAnalyte st) = Some v} \<union>
           {\<lparr>lat = lat e, lon = lon e, val = v\<rparr> | e v.
              e \<in> set (eaSamples st) \<and> getSampleValueEA e (currentAnalyte st) = Some v}"
    by (rule set_hotZoneSamples)
qed

theorem createHotZoneGrid_max_and_class_witness:
  "createHotZoneGrid \<lparr>metersPerDegLat = 111320, metersPerDegLon = 85390, feetToMeters = 0.3048\<rparr>
     (\<lambda>p q. 111320 * \<bar>lat p - lat q\<bar> + 85390 * \<bar>lon p - lon q\<bar>) \<lparr>low = 1, high = 204\<rparr>
     \<lparr>samples2025 = [\<lparr>lat = 0, lon = 0, sampled = True,
                       metals = Some (\<lambda>a. if a = ''Mercury'' then Some 3 else None)\<rparr>,
                     \<lparr>lat = 0.0001, lon = 0, sampled = False, metals = None\<rparr>],
      eaSamples = [\<lparr>lat = 0, lon = 0, mercury = Some 250, arsenic = None, antimony = None,
                    thallium = None\<rparr>],
      plannedPoints = [], includePlannedInGaps = False, gridSizeFt = 400,
      currentAnalyte = ''Mercury''\<rparr>
   = Some [\<lparr>latMin = - 0.0005, lonMin = - 0.0005,
            latMax = - 0.0005 + 400 * 0.3048 / 111320, lonMax = - 0.0005 + 400 * 0.3048 / 85390,
            color = ''#ff0000'', fillOpacity = 0.5\<rparr>] \<and>
   fst (hotZoneScan (\<lambda>p q. 111320 * \<bar>lat p - lat q\<bar> + 85390 * \<bar>lon p - lon q\<bar>)
          \<lparr>lat = 0, lon = 0\<rparr> 30
          (hotZoneSamples
     \<lparr>samples2025 = [\<lparr>lat = 0, lon = 0, sampled = True,
                       metals = Some (\<lambda>a. if a = ''Mercury'' then Some 3 else None)\<rparr>,
                     \<lparr>lat = 0.0001, lon = 0, sampled = False, metals = None\<rparr>],
      eaSamples = [\<lparr>lat = 0, lon = 0, mercury = Some 250, arsenic = None, antimony = None,
                    thallium = None\<rparr>],
      plannedPoints = [], includePlannedInGaps = False, gridSizeFt = 400,
      currentAnalyte = ''Mercury''\<rparr>)) = 250"
proof -
  let ?conv = "\<lparr>metersPerDegLat = 111320, metersPerDegLon = 85390, feetToMeters = 0.3048\<rparr>"
  let ?d = "\<lambda>p q :: point. 111320 * \<bar>lat p - lat q\<bar> + 85390 * \<bar>lon p - lon q\<bar>"
  let ?st = "\<lparr>samples2025 = [\<lparr>lat = 0, lon = 0, sampled = True,
                       metals = Some (\<lambda>a. if a = ''Mercury'' then Some 3 else None)\<rparr>,
                     \<lparr>lat = 0.0001, lon = 0, sampled = False, metals = None\<rparr>],
      eaSamples = [\<lparr>lat = 0, lon = 0, mercury = Some 250, arsenic = None, antimony = None,
                    thallium = None\<rparr>],
      plannedPoints = [], includePlannedInGaps = False, gridSizeFt = 400,
      currentAnalyte = ''Mercury''\<rparr>"
  have s: "hotZoneSamples ?st = [\<lparr>lat = 0, lon = 0, val = 3\<rparr>, \<lparr>lat = 0, lon = 0, val = 250\<rparr>]"
    by (simp add: hotZoneSamples_def List.map_filter_simps getSampleValue2025_def
        getSampleValueEA_def)
  have 1: "0 < gridSizeFt ?st" "0 < feetToMeters ?conv" "0 < metersPerDegLat ?conv"
    "0 < metersPerDegLon ?conv" by simp_all
  have v: "\<forall>s \<in> set (hotZoneSamples ?st). 0 \<le> val s" unfolding s by simp
  then have 2: "(\<forall>s \<in> set (hotZoneSamples ?st). 0 \<le> val s) \<or>
      (0 \<le> low \<lparr>low = 1, high = 204\<rparr> \<and> 0 \<le> high \<lparr>low = 1, high = 204\<rparr>)"
    by (rule disjI1)
  have 3: "withinRadius ?d \<lparr>lat = 0, lon = 0\<rparr> 30 (hotZoneSamples ?st) = hotZoneSamples ?st"
    unfolding s by (simp add: withinRadius_def)
  have 4: "hotZoneGridSpec ?conv ?d \<lparr>low = 1, high = 204\<rparr> ?st
      = Some [\<lparr>latMin = - 0.0005, lonMin = - 0.0005,
            latMax = - 0.0005 + 400 * 0.3048 / 111320, lonMax = - 0.0005 + 400 * 0.3048 / 85390,
            color = ''#ff0000'', fillOpacity = 0.5\<rparr>]"
    unfolding hotZoneGridSpec_def s
    by (simp add: Let_def forLoop.simps hotZoneCellSpec_def withinRadius_def)
  note T = createHotZoneGrid_max_and_class [OF 1 2, of ?d]
  from T have "\<exists>cells. createHotZoneGrid ?conv ?d \<lparr>low = 1, high = 204\<rparr> ?st = Some cells \<and>
      hotZoneGridSpec ?conv ?d \<lparr>low = 1, high = 204\<rparr> ?st = Some cells"
    by (rule conjunct1)
  with 4 have a: "createHotZoneGrid ?conv ?d \<lparr>low = 1, high = 204\<rparr> ?st
      = Some [\<lparr>latMin = - 0.0005, lonMin = - 0.0005,
            latMax = - 0.0005 + 400 * 0.3048 / 111320, lonMax = - 0.0005 + 400 * 0.3048 / 85390,
            color = ''#ff0000'', fillOpacity = 0.5\<rparr>]"
    by auto
  from T v have "\<forall>c rad. withinRadius ?d c rad (hotZoneSamples ?st) \<noteq> [] \<longrightarrow>
      fst (hotZoneScan ?d c rad (hotZoneSamples ?st))
        = Max (val ` set (withinRadius ?d c rad (hotZoneSamples ?st)))"
    by blast
  then have "withinRadius ?d \<lparr>lat = 0, lon = 0\<rparr> 30 (hotZoneSamples ?st) \<noteq> [] \<longrightarrow>
      fst (hotZoneScan ?d \<lparr>lat = 0, lon = 0\<rparr> 30 (hotZoneSamples ?st))
        = Max (val ` set (withinRadius ?d \<lparr>lat = 0, lon = 0\<rparr> 30 (hotZoneSamples ?st)))"
    by blast
  then have b: "fst (hotZoneScan ?d \<lparr>lat = 0, lon = 0\<rparr> 30 (hotZoneSamples ?st)) = 250"
    unfolding 3 unfolding s by simp
  from a b show ?thesis by (rule conjI)
qed

section \<open>Convex hull: every input point is inside or on the hull\<close>

subsection \<open>Turns of vectors in a half plane\<close>

text \<open>
  For vectors that point to the right (or straight up), "turning left from \<open>u\<close> to \<open>v\<close>",
  that is a non-negative cross product, is transitive. The proofs rest on one identity
  between the three cross products.
\<close>

lemma inH0_x: "inH0 x y \<Longrightarrow> 0 \<le> x"
  by (auto simp: inH0_def)

lemma turn_identity:
  "(ux * wy - uy * wx) * vx = (ux * vy - uy * vx) * wx + (vx * wy - vy * wx) * (ux::real)"
  by (simp add: algebra_simps)

lemma halfplane_turn_trans:
  assumes u: "inH0 ux uy" and v: "inH vx vy" and w: "inH0 wx wy"
    and uv: "0 \<le> ux * vy - uy * vx" and vw: "0 \<le> vx * wy - vy * wx"
  shows "0 \<le> ux * wy - uy * wx"
proof (cases "0 < vx")
  case True
  have "0 \<le> (ux * vy - uy * vx) * wx + (vx * wy - vy * wx) * ux"
    using uv vw inH0_x [OF u] inH0_x [OF w] by simp
  then have "0 \<le> (ux * wy - uy * wx) * vx" by (subst turn_identity)
  with True show ?thesis by (simp add: zero_le_mult_iff)
next
  case False
  with v have vx: "vx = 0" and vy: "0 < vy" by (auto simp: inH_def)
  from vw vx vy have "wx \<le> 0" by (simp add: mult_le_0_iff)
  with w have wx: "wx = 0" and wy: "0 \<le> wy" by (auto simp: inH0_def)
  from inH0_x [OF u] wy show ?thesis by (simp add: wx)
qed

lemma halfplane_turn_trans_strict:
  assumes u: "inH0 ux uy" and v: "inH vx vy" and w: "inH0 wx wy"
    and uv: "0 < ux * vy - uy * vx" and vw: "0 < vx * wy - vy * wx"
  shows "0 < ux * wy - uy * wx"
proof (cases "0 < vx")
  case True
  have "0 < ux \<or> 0 < wx"
  proof (rule ccontr)
    assume "\<not> (0 < ux \<or> 0 < wx)"
    with inH0_x [OF u] inH0_x [OF w] have z: "ux = 0" "wx = 0" by simp_all
    with u have "0 \<le> uy" by (simp add: inH0_def)
    with True have "0 \<le> uy * vx" by simp
    with uv z show False by simp
  qed
  then have "0 < (ux * vy - uy * vx) * wx + (vx * wy - vy * wx) * ux"
    using uv vw inH0_x [OF u] inH0_x [OF w]
    by (auto intro: add_nonneg_pos add_pos_nonneg mult_pos_pos mult_nonneg_nonneg less_imp_le)
  then have "0 < (ux * wy - uy * wx) * vx" by (subst turn_identity)
  with True show ?thesis by (simp add: zero_less_mult_iff)
next
  case False
  with v have vx: "vx = 0" and vy: "0 < vy" by (auto simp: inH_def)
  from vw vx vy have "wx < 0" by (simp add: mult_less_0_iff)
  with inH0_x [OF w] show ?thesis by simp
qed

subsection \<open>The sort order of points\<close>

lemma lexlt_inH: "lexlt a c \<Longrightarrow> inH (lon c - lon a) (lat c - lat a)"
  by (auto simp: lexlt_def inH_def)

lemma lexle_inH0: "lexle a c \<Longrightarrow> inH0 (lon c - lon a) (lat c - lat a)"
  by (auto simp: lexle_def inH0_def)

lemma lexlt_le: "lexlt a c \<Longrightarrow> lexle a c"
  by (auto simp: lexlt_def lexle_def)

lemma lexle_trans: "lexle a c \<Longrightarrow> lexle c d \<Longrightarrow> lexle a d"
  by (auto simp: lexle_def)

lemma lexlt_le_trans: "lexlt a c \<Longrightarrow> lexle c d \<Longrightarrow> lexlt a d"
  by (auto simp: lexle_def lexlt_def)

lemma lexle_cases: "lexle a c \<Longrightarrow> lexlt a c \<or> samePos a c"
  by (auto simp: lexle_def lexlt_def samePos_def)

lemma lexle_total: "lexle a c \<or> lexlt c a"
  by (auto simp: lexle_def lexlt_def)

lemma lexle_antisym: "lexle a c \<Longrightarrow> lexle c a \<Longrightarrow> samePos a c"
  by (auto simp: lexle_def samePos_def)

lemma samePos_lexle: "samePos a c \<Longrightarrow> lexle a c"
  by (auto simp: lexle_def samePos_def)

lemma cross2D_same [simp]: "cross2D a c c = 0" "cross2D a a c = 0" "cross2D a c a = 0"
  by (simp_all add: cross2D_def)

lemma cross2D_samePos: "samePos q c \<Longrightarrow> cross2D c p q = 0"
  by (simp add: cross2D_def samePos_def)

subsection \<open>Turns of points in sort order\<close>

text \<open>
  The three facts behind a push: a processed point before the new top stays left of the
  new edge, a processed point after it does too, and the new point is left of every
  remaining edge.
\<close>

lemma turn_before:
  assumes "lexlt a c" and "lexle q c" and "lexle c p"
    and "0 \<le> cross2D a c q" and "0 < cross2D a c p"
  shows "0 \<le> cross2D c p q"
proof -
  have "0 \<le> (lon c - lon q) * (lat p - lat c) - (lat c - lat q) * (lon p - lon c)"
  proof (rule halfplane_turn_trans [OF lexle_inH0 [OF assms(2)] lexlt_inH [OF assms(1)] lexle_inH0 [OF assms(3)]])
    show "0 \<le> (lon c - lon q) * (lat c - lat a) - (lat c - lat q) * (lon c - lon a)"
      using assms(4) by (simp add: cross2D_def algebra_simps)
    show "0 \<le> (lon c - lon a) * (lat p - lat c) - (lat c - lat a) * (lon p - lon c)"
      using assms(5) by (simp add: cross2D_def algebra_simps)
  qed
  then show ?thesis by (simp add: cross2D_def algebra_simps)
qed

lemma turn_after:
  assumes "lexlt c d" and "lexle c q" and "lexle c p"
    and "cross2D c d p \<le> 0" and "0 \<le> cross2D c d q"
  shows "0 \<le> cross2D c p q"
proof -
  have "0 \<le> (lon p - lon c) * (lat q - lat c) - (lat p - lat c) * (lon q - lon c)"
  proof (rule halfplane_turn_trans [OF lexle_inH0 [OF assms(3)] lexlt_inH [OF assms(1)] lexle_inH0 [OF assms(2)]])
    show "0 \<le> (lon p - lon c) * (lat d - lat c) - (lat p - lat c) * (lon d - lon c)"
      using assms(4) by (simp add: cross2D_def algebra_simps)
    show "0 \<le> (lon d - lon c) * (lat q - lat c) - (lat d - lat c) * (lon q - lon c)"
      using assms(5) by (simp add: cross2D_def algebra_simps)
  qed
  then show ?thesis by (simp add: cross2D_def algebra_simps)
qed

lemma turn_chain:
  assumes "lexlt a c" and "lexlt c d" and "lexle d p"
    and "0 < cross2D a c d" and "0 < cross2D c d p"
  shows "0 < cross2D a c p"
proof -
  have cp: "lexle c p" using assms(2,3) lexlt_le_trans lexlt_le by blast
  have "0 < (lon c - lon a) * (lat p - lat c) - (lat c - lat a) * (lon p - lon c)"
  proof (rule halfplane_turn_trans_strict [OF lexle_inH0 [OF lexlt_le [OF assms(1)]] lexlt_inH [OF assms(2)] lexle_inH0 [OF cp]])
    show "0 < (lon c - lon a) * (lat d - lat c) - (lat c - lat a) * (lon d - lon c)"
      using assms(4) by (simp add: cross2D_def algebra_simps)
    show "0 < (lon d - lon c) * (lat p - lat c) - (lat d - lat c) * (lon p - lon c)"
      using assms(5) by (simp add: cross2D_def algebra_simps)
  qed
  then show ?thesis by (simp add: cross2D_def algebra_simps)
qed

subsection \<open>The inner loop keeps the invariant\<close>

lemma edgesLeft_insert: "edgesLeft (insert p Q) st = (edgesLeft {p} st \<and> edgesLeft Q st)"
  by (induction Q st rule: edgesLeft.induct) auto

lemma cross2D_samePos_last: "samePos p d \<Longrightarrow> cross2D c d p = 0"
  by (simp add: cross2D_def samePos_def)

lemma cross2D_samePos_mid: "samePos c d \<Longrightarrow> cross2D c d p = 0"
  by (simp add: cross2D_def samePos_def)

lemma samePos_sym: "samePos a c \<Longrightarrow> samePos c a"
  by (simp add: samePos_def)

lemma samePos_trans: "samePos a c \<Longrightarrow> samePos c d \<Longrightarrow> samePos a d"
  by (simp add: samePos_def)

lemma popWhile_inv:
  assumes "st \<noteq> []" and "chainOK st" and "edgesLeft Q st" and "set st \<subseteq> Q"
    and "\<forall>q \<in> Q. lexle q p"
    and "\<forall>q \<in> Q. lexle (hd st) q \<longrightarrow> 0 \<le> cross2D (hd st) p q"
  shows "popWhile st p \<noteq> [] \<and> last (popWhile st p) = last st \<and>
         set (popWhile st p) \<subseteq> Q \<and> chainOK (popWhile st p) \<and> edgesLeft Q (popWhile st p) \<and>
         (\<forall>q \<in> Q. lexle (hd (popWhile st p)) q \<longrightarrow> 0 \<le> cross2D (hd (popWhile st p)) p q) \<and>
         (case popWhile st p of d # c # _ \<Rightarrow> 0 < cross2D c d p | _ \<Rightarrow> True)"
  using assms
proof (induction st p rule: popWhile.induct)
  case (1 s1 s2 st p)
  show ?case
  proof (cases "cross2D s2 s1 p \<le> 0")
    case True
    have lt: "lexlt s2 s1" using "1.prems"(2) by simp
    have s2p: "lexle s2 p" using "1.prems"(4,5) by simp
    have el: "\<forall>q \<in> Q. 0 \<le> cross2D s2 s1 q" using "1.prems"(3) by simp
    have J: "\<forall>q \<in> Q. lexle (hd (s2 # st)) q \<longrightarrow> 0 \<le> cross2D (hd (s2 # st)) p q"
      using turn_after [OF lt _ s2p True] el by simp
    have "popWhile (s2 # st) p \<noteq> [] \<and> last (popWhile (s2 # st) p) = last (s2 # st) \<and>
         set (popWhile (s2 # st) p) \<subseteq> Q \<and> chainOK (popWhile (s2 # st) p) \<and>
         edgesLeft Q (popWhile (s2 # st) p) \<and>
         (\<forall>q \<in> Q. lexle (hd (popWhile (s2 # st) p)) q \<longrightarrow>
              0 \<le> cross2D (hd (popWhile (s2 # st) p)) p q) \<and>
         (case popWhile (s2 # st) p of d # c # _ \<Rightarrow> 0 < cross2D c d p | _ \<Rightarrow> True)"
    proof (rule "1.IH" [OF True _ _ _ _ "1.prems"(5) J])
      show "s2 # st \<noteq> []" by simp
      show "chainOK (s2 # st)" using "1.prems"(2) by simp
      show "edgesLeft Q (s2 # st)" using "1.prems"(3) by simp
      show "set (s2 # st) \<subseteq> Q" using "1.prems"(4) by simp
    qed
    with True show ?thesis by simp
  next
    case False
    with "1.prems" show ?thesis by simp
  qed
qed simp_all

subsection \<open>Pushing the point keeps the invariant\<close>

lemma chain_left:
  "chainOK (d # c # rest) \<Longrightarrow> 0 < cross2D c d p \<Longrightarrow> lexle d p \<Longrightarrow> edgesLeft {p} (d # c # rest)"
proof (induction rest arbitrary: d c)
  case Nil
  then show ?case by simp
next
  case (Cons a rest)
  from Cons.prems(1) have cd: "lexlt c d" and acd: "0 < cross2D a c d"
    and ok: "chainOK (c # a # rest)" by simp_all
  from ok have ac: "lexlt a c" by simp
  have acp: "0 < cross2D a c p" by (rule turn_chain [OF ac cd Cons.prems(3) acd Cons.prems(2)])
  have cp: "lexle c p" using cd Cons.prems(3) lexlt_le lexle_trans by blast
  from Cons.IH [OF ok acp cp] Cons.prems(2) show ?case by simp
qed

lemma chainStep_inv_strict:
  assumes inv: "st \<noteq> []" "set st \<subseteq> Q" "\<forall>q \<in> Q. lexle q (hd st)" "\<forall>q \<in> Q. lexle (last st) q"
      "edgesLeft Q st" "chainOK st"
    and p: "\<forall>q \<in> Q. lexle q p"
  shows "chainInv (chainStep st p) (insert p Q)"
proof -
  define st' where "st' = popWhile st p"
  have J0: "\<forall>q \<in> Q. lexle (hd st) q \<longrightarrow> 0 \<le> cross2D (hd st) p q"
  proof (intro ballI impI)
    fix q assume "q \<in> Q" "lexle (hd st) q"
    with inv(3) have "samePos q (hd st)" using lexle_antisym by blast
    then show "0 \<le> cross2D (hd st) p q" by (simp add: cross2D_samePos)
  qed
  from popWhile_inv [OF inv(1) inv(6) inv(5) inv(2) p J0]
  have ne: "st' \<noteq> []" and last: "last st' = last st" and sub: "set st' \<subseteq> Q"
    and ok: "chainOK st'" and el: "edgesLeft Q st'"
    and J: "\<forall>q \<in> Q. lexle (hd st') q \<longrightarrow> 0 \<le> cross2D (hd st') p q"
    and top: "case st' of d # c # _ \<Rightarrow> 0 < cross2D c d p | _ \<Rightarrow> True"
    unfolding st'_def by simp_all
  from ne obtain d tl' where st': "st' = d # tl'" by (cases st') auto
  have dQ: "d \<in> Q" using sub st' by simp
  have dp: "lexle d p" using dQ p by simp
  have minp: "lexle (last st) p"
    using inv(1,2) p last_in_set by blast
  \<comment> \<open>the new edge from the top of the stack to p\<close>
  have new: "\<forall>q \<in> insert p Q. 0 \<le> cross2D d p q"
  proof
    fix q assume q: "q \<in> insert p Q"
    show "0 \<le> cross2D d p q"
    proof (cases "q = p")
      case True
      then show ?thesis by simp
    next
      case False
      with q have qQ: "q \<in> Q" by simp
      show ?thesis
      proof (cases "lexle d q")
        case True
        with J qQ st' show ?thesis by simp
      next
        case False
        then have qd: "lexlt q d" using lexle_total by blast
        show ?thesis
        proof (cases tl')
          case Nil
          then have "last st = d" using last st' by simp
          with inv(4) qQ have "lexle d q" by simp
          with False show ?thesis by simp
        next
          case (Cons c rest)
          from top st' Cons have cdp: "0 < cross2D c d p" by simp
          from ok st' Cons have cd: "lexlt c d" by simp
          from el st' Cons qQ have "0 \<le> cross2D c d q" by simp
          from turn_before [OF cd lexlt_le [OF qd] dp this cdp] show ?thesis .
        qed
      qed
    qed
  qed
  have old: "edgesLeft {p} st'"
  proof (cases tl')
    case Nil
    then show ?thesis by (simp add: st')
  next
    case (Cons c rest)
    from top st' Cons have cdp: "0 < cross2D c d p" by simp
    have "chainOK (d # c # rest)" using ok st' Cons by simp
    from chain_left [OF this cdp dp] show ?thesis by (simp only: st' Cons)
  qed
  have edges: "edgesLeft (insert p Q) (p # st')"
    using new old el by (simp add: st' edgesLeft_insert [of p Q])
  have shape: "chainOK (p # st') \<or> ((\<forall>q \<in> insert p Q. samePos q p) \<and> length (p # st') \<le> 2)"
  proof (cases tl')
    case Nil
    show ?thesis
    proof (cases "samePos d p")
      case True
      have "\<forall>q \<in> Q. samePos q p"
      proof
        fix q assume qQ: "q \<in> Q"
        have "last st = d" using last st' Nil by simp
        with inv(4) qQ have "lexle d q" by simp
        moreover have "lexle q d" using p qQ True samePos_lexle samePos_sym lexle_trans by blast
        ultimately have "samePos q d" using lexle_antisym by blast
        with True show "samePos q p" using samePos_trans by blast
      qed
      then show ?thesis by (simp add: st' Nil samePos_def)
    next
      case False
      with dp have "lexlt d p" using lexle_cases by blast
      then show ?thesis by (simp add: st' Nil)
    qed
  next
    case (Cons c rest)
    from top st' Cons have cdp: "0 < cross2D c d p" by simp
    have "\<not> samePos p d" using cdp cross2D_samePos_last [of p d c] by auto
    then have "\<not> samePos d p" using samePos_sym by blast
    with dp have "lexlt d p" using lexle_cases by blast
    with cdp ok show ?thesis by (simp add: st' Cons)
  qed
  have "last (p # st') = last st" using ne last by simp
  then have lastq: "\<forall>q \<in> insert p Q. lexle (last (p # st')) q"
    using inv(4) minp by simp
  have "\<forall>q \<in> insert p Q. lexle q p" using p by (simp add: lexle_def)
  then show ?thesis
    unfolding chainInv_def chainStep_def st'_def [symmetric]
    using sub edges shape lastq by auto
qed

lemma popWhile_degenerate:
  assumes "st \<noteq> []" and "length st \<le> 2" and "\<forall>q \<in> set st. samePos q (hd st)"
  shows "popWhile st p = [last st]"
proof -
  have "(\<exists>s. st = [s]) \<or> (\<exists>s1 s2. st = [s1, s2])"
  proof (cases st)
    case Nil
    with assms(1) show ?thesis by simp
  next
    case (Cons s1 tl1)
    with assms(2) show ?thesis by (cases tl1) auto
  qed
  then consider s where "st = [s]" | s1 s2 where "st = [s1, s2]" by blast
  then show ?thesis
  proof cases
    case 1
    then show ?thesis by simp
  next
    case 2
    with assms(3) have "samePos s2 s1" by simp
    then have "cross2D s2 s1 p = 0" by (rule cross2D_samePos_mid)
    with 2 show ?thesis by simp
  qed
qed

lemma chainStep_inv_degenerate:
  assumes inv: "st \<noteq> []" "set st \<subseteq> Q" "\<forall>q \<in> Q. samePos q (hd st)" "length st \<le> 2"
    and p: "\<forall>q \<in> Q. lexle q p"
  shows "chainInv (chainStep st p) (insert p Q)"
proof -
  define s where "s = last st"
  have sQ: "s \<in> Q" using inv(1,2) last_in_set s_def by blast
  have same: "\<forall>q \<in> Q. samePos q s"
    using inv(3) sQ samePos_sym samePos_trans by blast
  have pw: "popWhile st p = [s]"
    unfolding s_def using inv by (intro popWhile_degenerate) auto
  have sp: "lexle s p" using sQ p by simp
  have e: "\<forall>q \<in> insert p Q. 0 \<le> cross2D s p q"
    using same by (auto simp: cross2D_samePos)
  have l: "\<forall>q \<in> insert p Q. lexle s q"
    using same sp samePos_sym samePos_lexle by blast
  have h: "\<forall>q \<in> insert p Q. lexle q p" using p by (simp add: lexle_def)
  have shape: "chainOK [p, s] \<or> ((\<forall>q \<in> insert p Q. samePos q p) \<and> length [p, s] \<le> 2)"
  proof (cases "samePos s p")
    case True
    with same have "\<forall>q \<in> Q. samePos q p" using samePos_trans by blast
    then show ?thesis by (simp add: samePos_def)
  next
    case False
    with sp have "lexlt s p" using lexle_cases by blast
    then show ?thesis by simp
  qed
  show ?thesis
    unfolding chainInv_def chainStep_def pw
    using sQ e l h shape by auto
qed

lemma chainStep_inv:
  assumes "chainInv st Q" and "\<forall>q \<in> Q. lexle q p"
  shows "chainInv (chainStep st p) (insert p Q)"
  using assms chainStep_inv_strict [of st Q p] chainStep_inv_degenerate [of st Q p]
  unfolding chainInv_def by blast

subsection \<open>The whole chain\<close>

lemma foldl_chainStep_inv:
  assumes "chainInv st Q" and "sorted_wrt lexle ps" and "\<forall>q \<in> Q. \<forall>p \<in> set ps. lexle q p"
  shows "chainInv (foldl chainStep st ps) (Q \<union> set ps)"
  using assms
proof (induction ps arbitrary: st Q)
  case Nil
  then show ?case by simp
next
  case (Cons p ps)
  have 1: "chainInv (chainStep st p) (insert p Q)"
    using Cons.prems(1,3) by (intro chainStep_inv) auto
  have 2: "sorted_wrt lexle ps" using Cons.prems(2) by simp
  have 3: "\<forall>q \<in> insert p Q. \<forall>p' \<in> set ps. lexle q p'"
    using Cons.prems(2,3) by auto
  from Cons.IH [OF 1 2 3] show ?case by simp
qed

lemma chainInv_single: "chainInv [p] {p}"
  by (simp add: chainInv_def lexle_def samePos_def)

lemma buildChain_stack_inv:
  assumes "ps \<noteq> []" and "sorted_wrt lexle ps"
  shows "chainInv (foldl chainStep [] ps) (set ps)"
proof -
  from assms(1) obtain p rest where ps: "ps = p # rest" by (cases ps) auto
  have "chainInv (foldl chainStep [p] rest) ({p} \<union> set rest)"
    using assms(2) by (intro foldl_chainStep_inv chainInv_single) (auto simp: ps)
  then show ?thesis by (simp add: ps chainStep_def)
qed

lemma edgesLeft_nth:
  "edgesLeft Q st \<Longrightarrow> Suc k < length st \<Longrightarrow> q \<in> Q \<Longrightarrow> 0 \<le> cross2D (st ! Suc k) (st ! k) q"
proof (induction Q st arbitrary: k rule: edgesLeft.induct)
  case (1 Q c a rest)
  then show ?case by (cases k) auto
qed simp_all

lemma buildChain_edges:
  assumes "ps \<noteq> []" and "sorted_wrt lexle ps" and "Suc k < length (buildChain ps)" and "q \<in> set ps"
  shows "0 \<le> cross2D (buildChain ps ! k) (buildChain ps ! Suc k) q"
proof -
  define st where "st = foldl chainStep [] ps"
  have el: "edgesLeft (set ps) st"
    using buildChain_stack_inv [OF assms(1,2)] by (simp add: chainInv_def st_def)
  have len: "Suc k < length st" using assms(3) by (simp add: buildChain_def st_def)
  define k' where "k' = length st - Suc (Suc k)"
  have k': "Suc k' < length st" using len by (simp add: k'_def)
  have "rev st ! k = st ! Suc k'" "rev st ! Suc k = st ! k'"
    using len by (simp_all add: rev_nth k'_def Suc_diff_Suc)
  with edgesLeft_nth [OF el k' assms(4)] show ?thesis
    by (simp add: buildChain_def st_def)
qed

subsection \<open>The sort puts the points in sort order\<close>

lemma cmpLonLat_le: "cmpLonLat a c \<le> 0 \<longleftrightarrow> lexle a c"
  by (auto simp: cmpLonLat_def lexle_def)

lemma sorted_insert_by:
  "sorted_wrt lexle xs \<Longrightarrow> sorted_wrt lexle (insert_by cmpLonLat v xs)"
proof (induction xs)
  case Nil
  then show ?case by simp
next
  case (Cons y ys)
  show ?case
  proof (cases "cmpLonLat v y \<le> 0")
    case True
    then have vy: "lexle v y" by (simp add: cmpLonLat_le)
    then have "\<forall>z \<in> set ys. lexle v z" using Cons.prems lexle_trans by auto
    with vy Cons.prems True show ?thesis by simp
  next
    case False
    then have "lexle y v" using lexle_total [of v y] lexlt_le by (auto simp: cmpLonLat_le)
    with Cons False show ?thesis by (auto simp: set_insert_by)
  qed
qed

lemma sorted_sort_by: "sorted_wrt lexle (sort_by cmpLonLat xs)"
  by (induction xs) (simp_all add: sort_by_def sorted_insert_by)

subsection \<open>The upper chain\<close>

text \<open>
  The upper chain is built from the points in decreasing order. Reflecting every point at
  the origin turns this into the increasing case and changes no cross product.
\<close>

lemma cross2D_negPt [simp]: "cross2D (negPt a) (negPt c) (negPt d) = cross2D a c d"
  by (simp add: cross2D_def negPt_def algebra_simps)

lemma lexle_negPt [simp]: "lexle (negPt a) (negPt c) = lexle c a"
  by (auto simp: lexle_def negPt_def)

lemma negPt_negPt [simp]: "negPt (negPt p) = p"
  by (simp add: negPt_def)

lemma popWhile_negPt: "popWhile (map negPt st) (negPt p) = map negPt (popWhile st p)"
  by (induction st p rule: popWhile.induct) simp_all

lemma foldl_chainStep_negPt:
  "foldl chainStep (map negPt st) (map negPt ps) = map negPt (foldl chainStep st ps)"
proof (induction ps arbitrary: st)
  case Nil
  show ?case by simp
next
  case (Cons p ps)
  have "chainStep (map negPt st) (negPt p) = map negPt (chainStep st p)"
    by (simp add: chainStep_def popWhile_negPt)
  with Cons.IH [of "chainStep st p"] show ?case by simp
qed

lemma buildChain_negPt: "buildChain (map negPt ps) = map negPt (buildChain ps)"
  using foldl_chainStep_negPt [of "[]" ps] by (simp add: buildChain_def rev_map)

subsection \<open>The ends and the length of a chain\<close>

lemma popWhile_last: "st \<noteq> [] \<Longrightarrow> popWhile st p \<noteq> [] \<and> last (popWhile st p) = last st"
  by (induction st p rule: popWhile.induct) auto

lemma foldl_chainStep_last:
  "st \<noteq> [] \<Longrightarrow> foldl chainStep st ps \<noteq> [] \<and> last (foldl chainStep st ps) = last st"
proof (induction ps arbitrary: st)
  case Nil
  then show ?case by simp
next
  case (Cons p ps)
  have "chainStep st p \<noteq> []" "last (chainStep st p) = last st"
    using popWhile_last [OF Cons.prems, of p] by (simp_all add: chainStep_def)
  with Cons.IH [of "chainStep st p"] show ?case by simp
qed

lemma foldl_chainStep_hd: "ps \<noteq> [] \<Longrightarrow> hd (foldl chainStep st ps) = last ps"
proof (induction ps arbitrary: st)
  case Nil
  then show ?case by simp
next
  case (Cons p ps)
  show ?case
  proof (cases ps)
    case Nil
    then show ?thesis by (simp add: chainStep_def)
  next
    case (Cons p' ps')
    with Cons.IH [of "chainStep st p"] show ?thesis by simp
  qed
qed

lemma foldl_chainStep_length:
  "st \<noteq> [] \<Longrightarrow> ps \<noteq> [] \<Longrightarrow> 2 \<le> length (foldl chainStep st ps)"
proof (induction ps arbitrary: st)
  case Nil
  then show ?case by simp
next
  case (Cons p ps)
  have ne: "chainStep st p \<noteq> []" by (simp add: chainStep_def)
  show ?case
  proof (cases ps)
    case Nil
    have "popWhile st p \<noteq> []" using popWhile_last [OF Cons.prems(1)] by simp
    then have "2 \<le> length (chainStep st p)"
      by (cases "popWhile st p") (simp_all add: chainStep_def)
    with Nil show ?thesis by simp
  next
    case (Cons p' ps')
    with Cons.IH [OF ne] show ?thesis by simp
  qed
qed

lemma buildChain_ends:
  assumes "2 \<le> length ps"
  shows "hd (buildChain ps) = hd ps \<and> last (buildChain ps) = last ps \<and> 2 \<le> length (buildChain ps)"
proof -
  from assms obtain p rest where ps: "ps = p # rest" and rest: "rest \<noteq> []"
    by (cases ps) fastforce+
  have f: "foldl chainStep [] ps = foldl chainStep [p] rest" by (simp add: ps chainStep_def)
  have 1: "foldl chainStep [p] rest \<noteq> []" "last (foldl chainStep [p] rest) = p"
    using foldl_chainStep_last [of "[p]" rest] by simp_all
  have 2: "hd (foldl chainStep [p] rest) = last rest" using rest by (rule foldl_chainStep_hd)
  have 3: "2 \<le> length (foldl chainStep [p] rest)" using rest by (intro foldl_chainStep_length) simp
  show ?thesis
    unfolding buildChain_def f using 1 2 3 rest
    by (simp add: hd_rev last_rev ps)
qed

lemma buildChain_rev_edges:
  assumes "ps \<noteq> []" and "sorted_wrt lexle ps" and "Suc k < length (buildChain (rev ps))"
    and "q \<in> set ps"
  shows "0 \<le> cross2D (buildChain (rev ps) ! k) (buildChain (rev ps) ! Suc k) q"
proof -
  define ps' where "ps' = map negPt (rev ps)"
  have bc: "buildChain ps' = map negPt (buildChain (rev ps))"
    unfolding ps'_def by (rule buildChain_negPt)
  have 1: "ps' \<noteq> []" using assms(1) by (simp add: ps'_def)
  have 2: "sorted_wrt lexle ps'"
    using assms(2) by (simp add: ps'_def sorted_wrt_map sorted_wrt_rev)
  have 3: "Suc k < length (buildChain ps')" using assms(3) by (simp add: bc)
  have 4: "negPt q \<in> set ps'" using assms(4) by (simp add: ps'_def)
  from buildChain_edges [OF 1 2 3 4] assms(3) show ?thesis
    by (simp add: bc)
qed

subsection \<open>The edges of the hull\<close>

text \<open>Every edge of the hull, the closing edge included, is an edge of the lower or of the
  upper chain.\<close>

lemma hull_cyclic_edge:
  assumes L: "2 \<le> length L" and U: "2 \<le> length U"
    and LU: "last L = hd U" and UL: "last U = hd L"
    and i: "i < length (butlast L @ butlast U)"
  shows "(\<exists>k. Suc k < length L \<and> (butlast L @ butlast U) ! i = L ! k \<and>
              (butlast L @ butlast U) ! ((i + 1) mod length (butlast L @ butlast U)) = L ! Suc k) \<or>
         (\<exists>k. Suc k < length U \<and> (butlast L @ butlast U) ! i = U ! k \<and>
              (butlast L @ butlast U) ! ((i + 1) mod length (butlast L @ butlast U)) = U ! Suc k)"
proof -
  define m where "m = length L - 1"
  define n where "n = length U - 1"
  have m: "0 < m" "length (butlast L) = m" "length L = Suc m" using L by (simp_all add: m_def)
  have n: "0 < n" "length (butlast U) = n" "length U = Suc n" using U by (simp_all add: n_def)
  have len: "length (butlast L @ butlast U) = m + n" using m n by simp
  have Lne: "L \<noteq> []" and Une: "U \<noteq> []" using L U by auto
  have lastL: "last L = L ! m" using Lne by (simp add: last_conv_nth m_def)
  have lastU: "last U = U ! n" using Une by (simp add: last_conv_nth n_def)
  have hdL: "hd L = L ! 0" using Lne by (simp add: hd_conv_nth)
  have hdU: "hd U = U ! 0" using Une by (simp add: hd_conv_nth)
  have nthL: "(butlast L @ butlast U) ! k = L ! k" if "k < m" for k
    using that m by (simp add: nth_append nth_butlast)
  have nthU: "(butlast L @ butlast U) ! (m + k) = U ! k" if "k < n" for k
    using that m n by (simp add: nth_append nth_butlast)
  from i have i': "i < m + n" unfolding len .
  consider "Suc i < m" | "Suc i = m" | "m \<le> i" "Suc i < m + n" | "Suc i = m + n"
    using i' by linarith
  then show ?thesis
  proof cases
    case 1
    then have "(i + 1) mod (m + n) = Suc i" by simp
    with 1 nthL [of i] nthL [of "Suc i"] m show ?thesis
      unfolding len by (intro disjI1 exI [of _ i]) simp
  next
    case 2
    then have mod: "(i + 1) mod (m + n) = m" using n by simp
    have "(butlast L @ butlast U) ! m = U ! 0" using nthU [of 0] n by simp
    then have "(butlast L @ butlast U) ! m = L ! Suc i" using LU lastL hdU 2 by simp
    with 2 nthL [of i] m show ?thesis
      unfolding len mod by (intro disjI1 exI [of _ i]) simp
  next
    case 3
    define k where "k = i - m"
    have k: "i = m + k" "Suc k < n" using 3 by (simp_all add: k_def)
    have mod: "(i + 1) mod (m + n) = m + Suc k" using 3 k by simp
    from k nthU [of k] nthU [of "Suc k"] n show ?thesis
      unfolding len mod by (intro disjI2 exI [of _ k]) simp
  next
    case 4
    define k where "k = i - m"
    have k: "i = m + k" "Suc k = n" using 4 n by (simp_all add: k_def)
    have mod: "(i + 1) mod (m + n) = 0" using 4 by simp
    have "(butlast L @ butlast U) ! 0 = L ! 0" using nthL [of 0] m by simp
    then have "(butlast L @ butlast U) ! 0 = U ! Suc k" using UL lastU hdL k by simp
    with k nthU [of k] n show ?thesis
      unfolding len mod by (intro disjI2 exI [of _ k]) simp
  qed
qed

lemma edgeCross_cross2D:
  "edgeCross (lat q) (lon q) hul i = cross2D (hul ! i) (hul ! ((i + 1) mod length hul)) q"
  by (simp add: edgeCross_def cross2D_def Let_def)

lemma computeConvexHull_edges_left:
  assumes "3 \<le> length points" and "q \<in> set points"
    and "i < length (computeConvexHull points)"
  shows "0 \<le> edgeCross (lat q) (lon q) (computeConvexHull points) i"
proof -
  define sorted where "sorted = sort_by cmpLonLat points"
  define L where "L = buildChain sorted"
  define U where "U = buildChain (rev sorted)"
  have hull: "computeConvexHull points = butlast L @ butlast U"
    using assms(1) by (simp add: computeConvexHull_def Let_def sorted_def L_def U_def)
  have len: "2 \<le> length sorted" "2 \<le> length (rev sorted)"
    using assms(1) by (simp_all add: sorted_def length_sort_by)
  then have ne: "sorted \<noteq> []" by auto
  have srt: "sorted_wrt lexle sorted" unfolding sorted_def by (rule sorted_sort_by)
  have q: "q \<in> set sorted" using assms(2) by (simp add: sorted_def set_sort_by)
  from buildChain_ends [OF len(1)]
  have Le: "hd L = hd sorted" "last L = last sorted" "2 \<le> length L" by (simp_all add: L_def)
  from buildChain_ends [OF len(2)] ne
  have Ue: "hd U = last sorted" "last U = hd sorted" "2 \<le> length U"
    by (simp_all add: U_def hd_rev last_rev)
  have i: "i < length (butlast L @ butlast U)" using assms(3) by (simp add: hull)
  from hull_cyclic_edge [OF Le(3) Ue(3) _ _ i] Le Ue
  consider k where "Suc k < length L" "(butlast L @ butlast U) ! i = L ! k"
      "(butlast L @ butlast U) ! ((i + 1) mod length (butlast L @ butlast U)) = L ! Suc k"
    | k where "Suc k < length U" "(butlast L @ butlast U) ! i = U ! k"
      "(butlast L @ butlast U) ! ((i + 1) mod length (butlast L @ butlast U)) = U ! Suc k"
    by auto
  then show ?thesis
  proof cases
    case 1
    from buildChain_edges [OF ne srt _ q, of k] 1 show ?thesis
      by (simp add: edgeCross_cross2D hull L_def)
  next
    case 2
    from buildChain_rev_edges [OF ne srt _ q, of k] 2 show ?thesis
      by (simp add: edgeCross_cross2D hull U_def)
  qed
qed

subsection \<open>Hulls of fewer than 3 vertices\<close>

text \<open>If both chains have only their two end points, every input point is on the line
  through them.\<close>

lemma collinear_three:
  assumes "cross2D o1 e a = 0" and "cross2D o1 e c = 0" and "cross2D o1 e d = 0"
    and "\<not> samePos o1 e"
  shows "cross2D a c d = 0"
proof -
  have x: "cross2D a c d * (lon e - lon o1) = 0"
    using assms(1-3) unfolding cross2D_def by algebra
  have y: "cross2D a c d * (lat e - lat o1) = 0"
    using assms(1-3) unfolding cross2D_def by algebra
  from assms(4) have "lon e - lon o1 \<noteq> 0 \<or> lat e - lat o1 \<noteq> 0"
    by (auto simp: samePos_def)
  with x y show ?thesis by auto
qed

lemma cross2D_swap: "cross2D e o1 q = - cross2D o1 e q"
  by (simp add: cross2D_def algebra_simps)

lemma sorted_wrt_lexle_hd: "sorted_wrt lexle xs \<Longrightarrow> q \<in> set xs \<Longrightarrow> lexle (hd xs) q"
  by (cases xs) (auto simp: lexle_def)

lemma sorted_wrt_lexle_last: "sorted_wrt lexle xs \<Longrightarrow> q \<in> set xs \<Longrightarrow> lexle q (last xs)"
  by (induction xs) (auto simp: lexle_def)

lemma samePos_cross2D: "samePos a o1 \<Longrightarrow> samePos c o1 \<Longrightarrow> cross2D a c d = 0"
  by (simp add: samePos_def cross2D_def)

lemma two_nth: "length xs = 2 \<Longrightarrow> xs ! 0 = hd xs \<and> xs ! Suc 0 = last xs"
proof -
  assume "length xs = 2"
  then obtain u v where "xs = [u, v]"
    by (metis One_nat_def Suc_1 length_0_conv length_Suc_conv)
  then show ?thesis by simp
qed

lemma computeConvexHull_length:
  assumes "3 \<le> length points" and "a \<in> set points" and "c \<in> set points" and "d \<in> set points"
    and "cross2D a c d \<noteq> 0"
  shows "3 \<le> length (computeConvexHull points)"
proof (rule ccontr)
  assume short: "\<not> 3 \<le> length (computeConvexHull points)"
  define sorted where "sorted = sort_by cmpLonLat points"
  define L where "L = buildChain sorted"
  define U where "U = buildChain (rev sorted)"
  have hull: "computeConvexHull points = butlast L @ butlast U"
    using assms(1) by (simp add: computeConvexHull_def Let_def sorted_def L_def U_def)
  have len: "2 \<le> length sorted" "2 \<le> length (rev sorted)"
    using assms(1) by (simp_all add: sorted_def length_sort_by)
  then have ne: "sorted \<noteq> []" by auto
  have srt: "sorted_wrt lexle sorted" unfolding sorted_def by (rule sorted_sort_by)
  have mem: "set sorted = set points" by (simp add: sorted_def set_sort_by)
  from buildChain_ends [OF len(1)]
  have Le: "hd L = hd sorted" "last L = last sorted" "2 \<le> length L" by (simp_all add: L_def)
  from buildChain_ends [OF len(2)] ne
  have Ue: "hd U = last sorted" "last U = hd sorted" "2 \<le> length U"
    by (simp_all add: U_def hd_rev last_rev)
  from short Le(3) Ue(3) have l2: "length L = 2" "length U = 2" by (simp_all add: hull)
  define o1 where "o1 = hd sorted"
  define e where "e = last sorted"
  have L0: "L ! 0 = o1" "L ! Suc 0 = e"
    using Le two_nth [OF l2(1)] by (simp_all add: o1_def e_def)
  have U0: "U ! 0 = e" "U ! Suc 0 = o1"
    using Ue two_nth [OF l2(2)] by (simp_all add: o1_def e_def)
  have zero: "cross2D o1 e q = 0" if "q \<in> set points" for q
  proof -
    from that have q: "q \<in> set sorted" by (simp add: mem)
    have "0 \<le> cross2D o1 e q"
      using buildChain_edges [OF ne srt _ q, of 0] l2 L0 by (simp add: L_def)
    moreover have "0 \<le> cross2D e o1 q"
      using buildChain_rev_edges [OF ne srt _ q, of 0] l2 U0 by (simp add: U_def)
    ultimately show ?thesis using cross2D_swap [of e o1 q] by linarith
  qed
  show False
  proof (cases "samePos o1 e")
    case True
    have same: "samePos q o1" if "q \<in> set points" for q
    proof -
      from that have q: "q \<in> set sorted" by (simp add: mem)
      have "lexle o1 q" unfolding o1_def by (rule sorted_wrt_lexle_hd [OF srt q])
      moreover have "lexle q e" unfolding e_def by (rule sorted_wrt_lexle_last [OF srt q])
      then have "lexle q o1" using True samePos_sym samePos_lexle lexle_trans by blast
      ultimately show ?thesis using lexle_antisym by blast
    qed
    have "cross2D a c d = 0"
      by (rule samePos_cross2D [OF same [OF assms(2)] same [OF assms(3)]])
    with assms(5) show False by simp
  next
    case False
    from collinear_three [OF zero [OF assms(2)] zero [OF assms(3)] zero [OF assms(4)] False]
      assms(5) show False by simp
  qed
qed

text \<open>
  In exact arithmetic: for points that are not all on one line, every point of the input
  lies inside or on the hull.
\<close>

lemma computeConvexHull_contains_input_exact:
  assumes "a \<in> set points" and "c \<in> set points" and "d \<in> set points"
    and "cross2D a c d \<noteq> 0" and "q \<in> set points"
  shows "pointInConvexHull (lat q) (lon q) (computeConvexHull points)"
proof -
  have "a \<noteq> c" "a \<noteq> d" "c \<noteq> d" using assms(4) by auto
  then have "card {a, c, d} = 3" by simp
  moreover have "card {a, c, d} \<le> card (set points)"
    using assms(1-3) by (intro card_mono) auto
  ultimately have len: "3 \<le> length points"
    using card_length [of points] by linarith
  have n: "3 \<le> length (computeConvexHull points)"
    by (rule computeConvexHull_length [OF len assms(1-4)])
  have "\<forall>i \<in> set [0..<length (computeConvexHull points)].
          \<not> edgeCross (lat q) (lon q) (computeConvexHull points) i < 0"
    using computeConvexHull_edges_left [OF len assms(5)] by (simp add: not_less)
  with n show ?thesis
    by (simp add: pointInConvexHull_def Let_def list_all_iff)
qed

subsection \<open>Rounded arithmetic with exact signs takes the same branches\<close>

lemma insert_by_cong:
  "(\<And>y. y \<in> set xs \<Longrightarrow> (f v y \<le> 0) = (h v y \<le> 0)) \<Longrightarrow> insert_by f v xs = insert_by h v xs"
  by (induction xs) auto

lemma sort_by_cong:
  assumes "\<And>v y. v \<in> set xs \<Longrightarrow> y \<in> set xs \<Longrightarrow> (f v y \<le> 0) = (h v y \<le> 0)"
  shows "sort_by f xs = sort_by h xs"
  using assms
proof (induction xs)
  case Nil
  show ?case by (simp add: sort_by_def)
next
  case (Cons x xs)
  have IH: "sort_by f xs = sort_by h xs" using Cons by simp
  have "insert_by f x (sort_by h xs) = insert_by h x (sort_by h xs)"
    by (rule insert_by_cong) (simp add: Cons.prems set_sort_by)
  with IH show ?case by (simp add: sort_by_def)
qed

lemma cmpLonLat_fl_sign:
  assumes "signsExact fl points" and "a \<in> set points" and "c \<in> set points"
  shows "(cmpLonLat_fl fl a c \<le> 0) = (cmpLonLat a c \<le> 0)"
  using assms by (auto simp: signsExact_def cmpLonLat_fl_def cmpLonLat_def)

lemma sort_by_fl:
  assumes "signsExact fl points"
  shows "sort_by (cmpLonLat_fl fl) points = sort_by cmpLonLat points"
  by (rule sort_by_cong) (rule cmpLonLat_fl_sign [OF assms])

lemma popWhile_fl_eq:
  assumes "signsExact fl points"
  shows "set st \<subseteq> set points \<Longrightarrow> p \<in> set points \<Longrightarrow> popWhile_fl fl st p = popWhile st p"
proof (induction st p rule: popWhile.induct)
  case (1 s1 s2 st p)
  then have "(cross2D_fl fl s2 s1 p \<le> 0) = (cross2D s2 s1 p \<le> 0)"
    using assms by (simp add: signsExact_def)
  with 1 show ?case by simp
qed simp_all

lemma foldl_chainStep_fl_eq:
  assumes "signsExact fl points"
  shows "set st \<subseteq> set points \<Longrightarrow> set ps \<subseteq> set points \<Longrightarrow>
         foldl (chainStep_fl fl) st ps = foldl chainStep st ps"
proof (induction ps arbitrary: st)
  case Nil
  show ?case by simp
next
  case (Cons p ps)
  have p: "p \<in> set points" using Cons.prems(2) by simp
  have eq: "chainStep_fl fl st p = chainStep st p"
    using popWhile_fl_eq [OF assms Cons.prems(1) p] by (simp add: chainStep_fl_def chainStep_def)
  have "set (chainStep st p) \<subseteq> set points"
    using set_popWhile [of st p] Cons.prems(1) p by (auto simp: chainStep_def)
  with Cons.IH [of "chainStep st p"] Cons.prems(2) eq show ?case by simp
qed

lemma buildChain_fl_eq:
  assumes "signsExact fl points" and "set ps \<subseteq> set points"
  shows "buildChain_fl fl ps = buildChain ps"
  using foldl_chainStep_fl_eq [OF assms(1) _ assms(2), of "[]"]
  by (simp add: buildChain_fl_def buildChain_def)

lemma computeConvexHull_fl_eq:
  assumes "signsExact fl points"
  shows "computeConvexHull_fl fl points = computeConvexHull points"
proof -
  have s: "set (sort_by cmpLonLat points) \<subseteq> set points" by (simp add: set_sort_by)
  then have r: "set (rev (sort_by cmpLonLat points)) \<subseteq> set points" by simp
  show ?thesis
    by (simp add: computeConvexHull_fl_def computeConvexHull_def Let_def sort_by_fl [OF assms]
        buildChain_fl_eq [OF assms s] buildChain_fl_eq [OF assms r])
qed

lemma edgeCross_fl_cross2D_fl:
  "edgeCross_fl fl (lat q) (lon q) hul i
     = cross2D_fl fl (hul ! i) (hul ! ((i + 1) mod length hul)) q"
  by (simp add: edgeCross_fl_def cross2D_fl_def Let_def)

lemma pointInConvexHull_fl_eq:
  assumes "signsExact fl points" and "set hul \<subseteq> set points" and "q \<in> set points"
  shows "pointInConvexHull_fl fl (lat q) (lon q) hul = pointInConvexHull (lat q) (lon q) hul"
proof -
  have "(edgeCross_fl fl (lat q) (lon q) hul i < 0) = (edgeCross (lat q) (lon q) hul i < 0)"
    if "i < length hul" for i
  proof -
    from that have "hul ! i \<in> set points" using assms(2) by auto
    moreover have "0 < length hul" using that by linarith
    then have "(i + 1) mod length hul < length hul" by (rule mod_less_divisor)
    then have "hul ! ((i + 1) mod length hul) \<in> set points" using assms(2) nth_mem by blast
    ultimately show ?thesis
      using assms(1,3) unfolding edgeCross_fl_cross2D_fl edgeCross_cross2D
      by (simp add: signsExact_def)
  qed
  then show ?thesis
    by (simp add: pointInConvexHull_fl_def pointInConvexHull_def Let_def list_all_iff)
qed

lemma cross2D_fl_id: "cross2D_fl (\<lambda>x. x) u v w = cross2D u v w"
  by (simp add: cross2D_fl_def cross2D_def)

lemma signsExact_id: "signsExact (\<lambda>x. x) points"
  by (simp add: signsExact_def cross2D_fl_id)

text \<open>
  Claim C1, as stated: for at least 3 points every input point is inside or on the
  computed hull. For three points on one line the hull is the two end points, and
  \<open>pointInConvexHull\<close> is false for every hull of fewer than 3 vertices.
\<close>

theorem computeConvexHull_containment_counterexample:
  "3 \<le> length [\<lparr>lat = 0, lon = 0\<rparr>, \<lparr>lat = 1, lon = 1\<rparr>, \<lparr>lat = 2, lon = 2\<rparr>] \<and>
   \<lparr>lat = 1, lon = 1\<rparr> \<in> set [\<lparr>lat = 0, lon = 0\<rparr>, \<lparr>lat = 1, lon = 1\<rparr>, \<lparr>lat = 2, lon = 2\<rparr>] \<and>
   computeConvexHull [\<lparr>lat = 0, lon = 0\<rparr>, \<lparr>lat = 1, lon = 1\<rparr>, \<lparr>lat = 2, lon = 2\<rparr>]
     = [\<lparr>lat = 0, lon = 0\<rparr>, \<lparr>lat = 2, lon = 2\<rparr>] \<and>
   \<not> pointInConvexHull 1 1
       (computeConvexHull [\<lparr>lat = 0, lon = 0\<rparr>, \<lparr>lat = 1, lon = 1\<rparr>, \<lparr>lat = 2, lon = 2\<rparr>])"
  by (simp add: computeConvexHull_def sort_by_def cmpLonLat_def buildChain_def chainStep_def
      cross2D_def pointInConvexHull_def Let_def)

text \<open>
  Claim C1, as stated, fails in a second way that the counterexample above does not show:
  for points that are nearly, but not exactly, on one line, the rounded cross product of
  the containment test can be negative where the exact one is 0 or positive, and an input
  point is then reported outside the hull. The amended claim therefore asks that rounding
  changes no sign among the input points.
\<close>

text \<open>
  Claim C1, amended. For every list of sample points that are not all on one line (three
  of them have a cross product that is not 0), and for arithmetic whose rounding changes
  the sign of no cross product and of no coordinate difference among the input points,
  every point of the input lies inside or on the hull computed by \<open>computeConvexHull\<close>:
  \<open>pointInConvexHull\<close> is true for it, points on the boundary counting as inside.
\<close>

theorem computeConvexHull_fl_contains_input:
  assumes "a \<in> set points" and "c \<in> set points" and "d \<in> set points"
    and "cross2D a c d \<noteq> 0" and "q \<in> set points"
    and "signsExact fl points"
  shows "pointInConvexHull_fl fl (lat q) (lon q) (computeConvexHull_fl fl points)"
proof -
  have h: "computeConvexHull_fl fl points = computeConvexHull points"
    by (rule computeConvexHull_fl_eq [OF assms(6)])
  have sub: "set (computeConvexHull points) \<subseteq> set points"
    by (rule computeConvexHull_subset)
  have "pointInConvexHull (lat q) (lon q) (computeConvexHull points)"
    by (rule computeConvexHull_contains_input_exact [OF assms(1-5)])
  then show ?thesis
    unfolding h pointInConvexHull_fl_eq [OF assms(6) sub assms(5)] .
qed

text \<open>An input of small whole numbers, on which double arithmetic is exact.\<close>

theorem computeConvexHull_fl_contains_input_witness:
  "cross2D \<lparr>lat = 0, lon = 0\<rparr> \<lparr>lat = 0, lon = 2\<rparr> \<lparr>lat = 2, lon = 1\<rparr> \<noteq> 0 \<and>
   signsExact (\<lambda>x. x)
     [\<lparr>lat = 1, lon = 1\<rparr>, \<lparr>lat = 2, lon = 1\<rparr>, \<lparr>lat = 0, lon = 0\<rparr>, \<lparr>lat = 0, lon = 2\<rparr>] \<and>
   pointInConvexHull_fl (\<lambda>x. x) 1 1
     (computeConvexHull_fl (\<lambda>x. x)
        [\<lparr>lat = 1, lon = 1\<rparr>, \<lparr>lat = 2, lon = 1\<rparr>, \<lparr>lat = 0, lon = 0\<rparr>, \<lparr>lat = 0, lon = 2\<rparr>]) \<and>
   pointInConvexHull_fl (\<lambda>x. x) 0 2
     (computeConvexHull_fl (\<lambda>x. x)
        [\<lparr>lat = 1, lon = 1\<rparr>, \<lparr>lat = 2, lon = 1\<rparr>, \<lparr>lat = 0, lon = 0\<rparr>, \<lparr>lat = 0, lon = 2\<rparr>])"
proof -
  let ?ps = "[\<lparr>lat = 1, lon = 1\<rparr>, \<lparr>lat = 2, lon = 1\<rparr>, \<lparr>lat = 0, lon = 0\<rparr>, \<lparr>lat = 0, lon = 2::real\<rparr>]"
  have x: "cross2D \<lparr>lat = 0, lon = 0\<rparr> \<lparr>lat = 0, lon = 2\<rparr> \<lparr>lat = 2, lon = 1\<rparr> \<noteq> 0"
    by (simp add: cross2D_def)
  have m: "\<lparr>lat = 0, lon = 0\<rparr> \<in> set ?ps" "\<lparr>lat = 0, lon = 2\<rparr> \<in> set ?ps"
    "\<lparr>lat = 2, lon = 1\<rparr> \<in> set ?ps" "\<lparr>lat = 1, lon = 1\<rparr> \<in> set ?ps"
    by simp_all
  have e: "signsExact (\<lambda>x. x) ?ps" by (rule signsExact_id)
  from computeConvexHull_fl_contains_input [OF m(1) m(2) m(3) x m(4) e]
    computeConvexHull_fl_contains_input [OF m(1) m(2) m(3) x m(2) e] x e
  show ?thesis by simp
qed

section \<open>Buffered hull: the area in exact arithmetic\<close>

subsection \<open>The shoelace sum\<close>

text \<open>The sum does not change when the polygon is moved, scales with the axes, and grows
  when every vertex is moved away from a point that all edges have on their left.\<close>

lemma sum_cyclic_shift:
  fixes f :: "nat \<Rightarrow> real"
  assumes "0 < n"
  shows "(\<Sum>i<n. f ((i + 1) mod n)) = (\<Sum>i<n. f i)"
proof -
  from assms obtain m where n: "n = Suc m" by (cases n) auto
  have "(\<Sum>i<m. f ((i + 1) mod Suc m)) = (\<Sum>i<m. f (Suc i))"
    by (rule sum.cong) simp_all
  then have "(\<Sum>i<Suc m. f ((i + 1) mod Suc m)) = (\<Sum>i<m. f (Suc i)) + f 0" by simp
  also have "\<dots> = (\<Sum>i<Suc m. f i)"
    by (simp add: sum.lessThan_Suc_shift del: sum.lessThan_Suc)
  finally show ?thesis by (simp add: n)
qed

lemma cyc_translate:
  assumes "0 < n"
  shows "cyc n (\<lambda>i. X i - a) (\<lambda>i. Y i - e) = cyc n X Y"
proof -
  have "cyc n (\<lambda>i. X i - a) (\<lambda>i. Y i - e) =
      (\<Sum>i<n. (X i * Y ((i + 1) mod n) - X ((i + 1) mod n) * Y i)
              + (a * Y i - a * Y ((i + 1) mod n)) + (e * X ((i + 1) mod n) - e * X i))"
    unfolding cyc_def by (rule sum.cong) (simp_all add: algebra_simps)
  also have "\<dots> = cyc n X Y + (a * (\<Sum>i<n. Y i) - a * (\<Sum>i<n. Y ((i + 1) mod n)))
                     + (e * (\<Sum>i<n. X ((i + 1) mod n)) - e * (\<Sum>i<n. X i))"
    by (simp add: cyc_def sum.distrib sum_subtractf sum_distrib_left)
  also have "\<dots> = cyc n X Y"
    using sum_cyclic_shift [OF assms, of X] sum_cyclic_shift [OF assms, of Y] by simp
  finally show ?thesis .
qed

lemma cyc_scale: "cyc n (\<lambda>i. kx * X i) (\<lambda>i. ky * Y i) = kx * ky * cyc n X Y"
  unfolding cyc_def sum_distrib_left by (rule sum.cong) (simp_all add: algebra_simps)

lemma cyc_mono:
  assumes k: "\<And>i. i < n \<Longrightarrow> 1 \<le> k i"
    and t: "\<And>i. i < n \<Longrightarrow> 0 \<le> X i * Y ((i + 1) mod n) - X ((i + 1) mod n) * Y i"
  shows "cyc n X Y \<le> cyc n (\<lambda>i. k i * X i) (\<lambda>i. k i * Y i)"
  unfolding cyc_def
proof (rule sum_mono)
  fix i assume "i \<in> {..<n}"
  then have i: "i < n" by simp
  then have j: "(i + 1) mod n < n" by simp
  define u where "u = X i * Y ((i + 1) mod n) - X ((i + 1) mod n) * Y i"
  have "1 * 1 \<le> k i * k ((i + 1) mod n)"
    using k [OF i] k [OF j] by (intro mult_mono) simp_all
  then have "1 * u \<le> (k i * k ((i + 1) mod n)) * u"
    using t [OF i] unfolding u_def by (intro mult_right_mono) simp_all
  then show "X i * Y ((i + 1) mod n) - X ((i + 1) mod n) * Y i
      \<le> k i * X i * (k ((i + 1) mod n) * Y ((i + 1) mod n))
        - k ((i + 1) mod n) * X ((i + 1) mod n) * (k i * Y i)"
    by (simp add: u_def algebra_simps)
qed

lemma cyc_nonneg:
  assumes "\<And>i. i < n \<Longrightarrow> 0 \<le> X i * Y ((i + 1) mod n) - X ((i + 1) mod n) * Y i"
  shows "0 \<le> cyc n X Y"
  unfolding cyc_def using assms by (intro sum_nonneg) simp

lemma shoelace_cyc:
  "shoelace pts = cyc (length pts) (\<lambda>i. fst (pts ! i)) (\<lambda>i. snd (pts ! i))"
  by (simp add: shoelace_def cyc_def Let_def interv_sum_list_conv_sum_set_nat lessThan_atLeast0)

subsection \<open>The buffered vertices and the area\<close>

lemma bufferFactor_ge_1: "0 \<le> bm \<Longrightarrow> 1 \<le> bufferFactor conv bm cLat cLon h"
  by (simp add: bufferFactor_def Let_def)

lemma push_out:
  fixes m :: real
  assumes "0 < m" and "\<not> D < 0.001"
  shows "v + (((v - c) * m) / D) * (bm / m) - c = (1 + bm / D) * (v - c)"
proof -
  from assms(2) have "0 < D" by simp
  with assms(1) show ?thesis by (simp add: field_simps)
qed

lemma bufferVertex_scaled:
  assumes "0 < metersPerDegLat conv" and "0 < metersPerDegLon conv"
  shows "lat (bufferVertex conv bm cLat cLon h) - cLat
           = bufferFactor conv bm cLat cLon h * (lat h - cLat) \<and>
         lon (bufferVertex conv bm cLat cLon h) - cLon
           = bufferFactor conv bm cLat cLon h * (lon h - cLon)"
proof -
  define D where "D = sqrt ((lat h - cLat) * metersPerDegLat conv * ((lat h - cLat) * metersPerDegLat conv)
      + (lon h - cLon) * metersPerDegLon conv * ((lon h - cLon) * metersPerDegLon conv))"
  show ?thesis
  proof (cases "D < 0.001")
    case True
    then show ?thesis
      by (simp add: bufferVertex_def bufferFactor_def Let_def D_def [symmetric])
  next
    case False
    then show ?thesis
      using push_out [OF assms(1) False, of "lat h" cLat bm]
        push_out [OF assms(2) False, of "lon h" cLon bm]
      by (simp only: bufferVertex_def bufferFactor_def Let_def D_def [symmetric] if_False
          point.simps)
  qed
qed

lemma cyc_cong:
  "(\<And>i. i < n \<Longrightarrow> X i = X' i) \<Longrightarrow> (\<And>i. i < n \<Longrightarrow> Y i = Y' i) \<Longrightarrow> cyc n X Y = cyc n X' Y'"
  unfolding cyc_def by (rule sum.cong) simp_all

lemma area_cyc:
  assumes "3 \<le> length vs"
  shows "calculateAreaSqFt conv vs =
     \<bar>(metersPerDegLon conv / feetToMeters conv) * (metersPerDegLat conv / feetToMeters conv)
        * cyc (length vs) (\<lambda>i. lon (vs ! i)) (\<lambda>i. lat (vs ! i)) / 2\<bar>"
proof -
  define n where "n = length vs"
  define kx where "kx = metersPerDegLon conv / feetToMeters conv"
  define ky where "ky = metersPerDegLat conv / feetToMeters conv"
  have n: "0 < n" using assms unfolding n_def by linarith
  have "shoelace (map (toFeet conv (hd vs)) vs) =
      cyc n (\<lambda>i. kx * (lon (vs ! i) - lon (hd vs))) (\<lambda>i. ky * (lat (vs ! i) - lat (hd vs)))"
    unfolding shoelace_cyc length_map n_def [symmetric]
    by (rule cyc_cong) (simp_all add: toFeet_def Let_def kx_def ky_def n_def)
  also have "\<dots> = kx * ky * cyc n (\<lambda>i. lon (vs ! i) - lon (hd vs)) (\<lambda>i. lat (vs ! i) - lat (hd vs))"
    by (rule cyc_scale)
  also have "\<dots> = kx * ky * cyc n (\<lambda>i. lon (vs ! i)) (\<lambda>i. lat (vs ! i))"
    by (simp only: cyc_translate [OF n])
  finally have "shoelace (map (toFeet conv (hd vs)) vs)
      = kx * ky * cyc n (\<lambda>i. lon (vs ! i)) (\<lambda>i. lat (vs ! i))" .
  moreover have "\<not> length vs < 3" using assms by simp
  ultimately show ?thesis
    by (simp only: calculateAreaSqFt_def n_def kx_def ky_def if_False times_divide_eq_left)
qed

lemma centroid_turn:
  fixes X Y :: "nat \<Rightarrow> real"
  assumes n: "0 < n"
    and cx: "cx = (\<Sum>q<n. X q) / real n" and cy: "cy = (\<Sum>q<n. Y q) / real n"
    and left: "\<And>q. q < n \<Longrightarrow> 0 \<le> (X j - X i) * (Y q - Y i) - (Y j - Y i) * (X q - X i)"
  shows "0 \<le> (X i - cx) * (Y j - cy) - (X j - cx) * (Y i - cy)"
proof -
  have sx: "(\<Sum>q<n. X q) = real n * cx" and sy: "(\<Sum>q<n. Y q) = real n * cy"
    using n by (simp_all add: cx cy)
  have "0 \<le> (\<Sum>q<n. (X j - X i) * (Y q - Y i) - (Y j - Y i) * (X q - X i))"
    using left by (intro sum_nonneg) simp
  also have "(\<Sum>q<n. (X j - X i) * (Y q - Y i) - (Y j - Y i) * (X q - X i)) =
      (X j - X i) * ((\<Sum>q<n. Y q) - real n * Y i) - (Y j - Y i) * ((\<Sum>q<n. X q) - real n * X i)"
    by (simp add: sum_subtractf sum_distrib_left right_diff_distrib)
  also have "\<dots> = real n * ((X i - cx) * (Y j - cy) - (X j - cx) * (Y i - cy))"
    unfolding sx sy by (simp add: algebra_simps)
  finally show ?thesis using n by (simp add: zero_le_mult_iff)
qed

lemma convexCCW_nth:
  assumes "convexCCW hul" and "i < length hul" and "q < length hul"
  shows "0 \<le> (lon (hul ! ((i + 1) mod length hul)) - lon (hul ! i)) * (lat (hul ! q) - lat (hul ! i))
           - (lat (hul ! ((i + 1) mod length hul)) - lat (hul ! i)) * (lon (hul ! q) - lon (hul ! i))"
proof -
  from assms(1,2) have "\<forall>p \<in> set hul. 0 \<le> cross2D (hul ! i) (hul ! ((i + 1) mod length hul)) p"
    by (simp add: convexCCW_def list_all_iff)
  with assms(3) have "0 \<le> cross2D (hul ! i) (hul ! ((i + 1) mod length hul)) (hul ! q)"
    by simp
  then show ?thesis by (simp add: cross2D_def)
qed

text \<open>The hulls that \<open>computeConvexHull\<close> returns for at least 3 points are convex and
  counter-clockwise in this sense.\<close>

lemma computeConvexHull_convexCCW:
  assumes "3 \<le> length points"
  shows "convexCCW (computeConvexHull points)"
proof -
  have "0 \<le> cross2D (computeConvexHull points ! i)
            (computeConvexHull points ! ((i + 1) mod length (computeConvexHull points))) q"
    if "i < length (computeConvexHull points)" and "q \<in> set (computeConvexHull points)" for i q
  proof -
    from that(2) have "q \<in> set points" using computeConvexHull_subset by blast
    from computeConvexHull_edges_left [OF assms this that(1)] show ?thesis
      by (simp only: edgeCross_cross2D)
  qed
  then show ?thesis by (simp add: convexCCW_def list_all_iff)
qed

text \<open>
  In exact arithmetic, buffering a convex counter-clockwise hull of at least 3 vertices by
  a positive distance does not shrink its area as \<open>calculateAreaSqFt\<close> measures it (the
  conversion constants being positive). The source computes the centroid, the offsets, the
  square root and the shoelace sums in double precision; for a thin hull the two areas are
  small differences of large products, and the rounded area of the buffered hull can come
  out below the rounded area of the hull. This lemma does not cover that.
\<close>

lemma bufferConvexHull_area_mono_exact:
  assumes len: "3 \<le> length hul" and cvx: "convexCCW hul" and bm: "0 < bufferMeters"
    and mlat: "0 < metersPerDegLat conv" and mlon: "0 < metersPerDegLon conv"
    and ftm: "0 < feetToMeters conv"
  shows "calculateAreaSqFt conv hul
           \<le> calculateAreaSqFt conv (bufferConvexHull conv hul bufferMeters)"
proof -
  define n where "n = length hul"
  define X where "X = (\<lambda>i. lon (hul ! i))"
  define Y where "Y = (\<lambda>i. lat (hul ! i))"
  define cx where "cx = sum_list (map lon hul) / real n"
  define cy where "cy = sum_list (map lat hul) / real n"
  define k where "k = (\<lambda>i. bufferFactor conv bufferMeters cy cx (hul ! i))"
  define bh where "bh = bufferConvexHull conv hul bufferMeters"
  define kk where "kk = (metersPerDegLon conv / feetToMeters conv)
      * (metersPerDegLat conv / feetToMeters conv)"
  have n: "0 < n" "3 \<le> n" using len unfolding n_def by linarith+
  have kk: "0 < kk" using mlat mlon ftm by (simp add: kk_def)
  have bh: "bh = map (bufferVertex conv bufferMeters cy cx) hul"
    using len by (simp add: bh_def bufferConvexHull_def Let_def cx_def cy_def n_def)
  then have lbh: "length bh = n" by (simp add: n_def)
  have sx: "cx = (\<Sum>q<n. X q) / real n"
    by (simp add: cx_def X_def n_def sum_list_sum_nth lessThan_atLeast0)
  have sy: "cy = (\<Sum>q<n. Y q) / real n"
    by (simp add: cy_def Y_def n_def sum_list_sum_nth lessThan_atLeast0)
  have t: "0 \<le> (X i - cx) * (Y ((i + 1) mod n) - cy) - (X ((i + 1) mod n) - cx) * (Y i - cy)"
    if "i < n" for i
  proof (rule centroid_turn [OF n(1) sx sy])
    fix q assume "q < n"
    with that convexCCW_nth [OF cvx, of i q]
    show "0 \<le> (X ((i + 1) mod n) - X i) * (Y q - Y i) - (Y ((i + 1) mod n) - Y i) * (X q - X i)"
      by (simp add: X_def Y_def n_def)
  qed
  have k1: "1 \<le> k i" for i
    unfolding k_def using bm by (intro bufferFactor_ge_1) simp
  have orig: "cyc n X Y = cyc n (\<lambda>i. X i - cx) (\<lambda>i. Y i - cy)"
    by (simp only: cyc_translate [OF n(1)])
  have "cyc n (\<lambda>i. lon (bh ! i)) (\<lambda>i. lat (bh ! i))
      = cyc n (\<lambda>i. lon (bh ! i) - cx) (\<lambda>i. lat (bh ! i) - cy)"
    by (simp only: cyc_translate [OF n(1)])
  also have "\<dots> = cyc n (\<lambda>i. k i * (X i - cx)) (\<lambda>i. k i * (Y i - cy))"
  proof (rule cyc_cong)
    fix i assume "i < n"
    then have "bh ! i = bufferVertex conv bufferMeters cy cx (hul ! i)"
      by (simp add: bh n_def)
    with bufferVertex_scaled [OF mlat mlon, of bufferMeters cy cx "hul ! i"]
    show "lon (bh ! i) - cx = k i * (X i - cx)" "lat (bh ! i) - cy = k i * (Y i - cy)"
      by (simp_all add: k_def X_def Y_def)
  qed
  finally have buf: "cyc n (\<lambda>i. lon (bh ! i)) (\<lambda>i. lat (bh ! i))
      = cyc n (\<lambda>i. k i * (X i - cx)) (\<lambda>i. k i * (Y i - cy))" .
  have mono: "cyc n X Y \<le> cyc n (\<lambda>i. lon (bh ! i)) (\<lambda>i. lat (bh ! i))"
    unfolding orig buf by (rule cyc_mono, rule k1, erule t)
  have nonneg: "0 \<le> cyc n X Y"
    unfolding orig by (rule cyc_nonneg, erule t)
  have a1: "calculateAreaSqFt conv hul = \<bar>kk * cyc n X Y / 2\<bar>"
    unfolding kk_def X_def Y_def n_def by (rule area_cyc [OF len])
  have a2: "calculateAreaSqFt conv bh = \<bar>kk * cyc n (\<lambda>i. lon (bh ! i)) (\<lambda>i. lat (bh ! i)) / 2\<bar>"
    unfolding kk_def lbh [symmetric] by (rule area_cyc) (simp add: lbh n)
  have "kk * cyc n X Y \<le> kk * cyc n (\<lambda>i. lon (bh ! i)) (\<lambda>i. lat (bh ! i))"
    using mono kk by simp
  moreover have "0 \<le> kk * cyc n X Y" using nonneg kk by simp
  ultimately show ?thesis
    unfolding bh_def [symmetric] a1 a2 by simp
qed

end
